theory Spec2Isabelle
  imports
    Main
    "HOL-Library.Word"
    "HOL-Library.Signed_Division"
    "HOL-Library.Monad_Syntax"
    "HOL-Library.Multiset"
begin

section \<open>The program: maximum sum through a pyramid, as a longest path on a DAG\<close>

text \<open>
  A shallow embedding of \<^verbatim>\<open>src/main.cpp\<close>.

  \<^item> The values read from the input, the edge weights and the entries of the \<^verbatim>\<open>sum\<close>
    array are C++ \<^verbatim>\<open>int\<close>s: 32-bit words whose arithmetic wraps around, compared as
    two's complement numbers (\<open>\<le>s\<close>, \<open><s\<close>). Signed overflow is undefined behaviour in
    C++; the model gives it the wrap-around of the usual targets.
  \<^item> Vertex numbers, the level count and the loop counters are C++ \<^verbatim>\<open>int\<close>s that start
    at a non-negative value and only count upwards; they are natural numbers here, and
    an addition on them whose result is above \<^verbatim>\<open>INT_MAX\<close> has no defined result
    (\<open>int_add\<close>): from there on the program would allocate and index with numbers that
    are not the vertices they stand for. The two subtractions of the builder,
    \<^verbatim>\<open>index-i\<close> and \<^verbatim>\<open>index-i+1\<close>, are computed over the integers and refused when
    negative.
  \<^item> Every function that indexes an array or adds to a counter returns an \<open>option\<close>:
    \<open>None\<close> stands for a run without a defined result (an access outside the array, a
    counter above \<^verbatim>\<open>INT_MAX\<close>, a loop that does not end, a recursion deeper than the
    fuel it was given).
\<close>

type_synonym int32 = "32 word"

definition INT_MAX :: int32 where
  "INT_MAX = 2147483647"

text \<open>
  The sum of two counters, \<^verbatim>\<open>a + b\<close> on non-negative \<^verbatim>\<open>int\<close>s: undefined above
  \<^verbatim>\<open>INT_MAX = 2147483647\<close>.
\<close>

definition int_add :: "nat \<Rightarrow> nat \<Rightarrow> nat option" where
  "int_add a b = (if a + b \<le> 2147483647 then Some (a + b) else None)"

text \<open>The C++ remainder \<^verbatim>\<open>a % b\<close>: truncated division, the sign of the dividend.\<close>

definition c_rem :: "int32 \<Rightarrow> int32 \<Rightarrow> int32" where
  "c_rem a b = word_of_int (sint a smod sint b)"

subsection \<open>\<^verbatim>\<open>struct Edge\<close> and \<^verbatim>\<open>struct DAG\<close>\<close>

record Edge =
  vertexNum :: nat
  edgeWeight :: int32

record DAG =
  vertexAmount :: nat
  edgeList :: "Edge list list"
  visited :: "bool list"
  s :: "nat list"

text \<open>
  The constructor \<^verbatim>\<open>DAG::DAG(int vertexAmount)\<close> allocates one empty edge list per vertex.
  The stack \<^verbatim>\<open>s\<close> starts empty (its head is the top); \<^verbatim>\<open>visited\<close> is allocated by
  \<^verbatim>\<open>maximumSum\<close>. The builder forms the vertex count with \<open>int_add\<close>, so that a graph is
  allocated for a count within the range of \<^verbatim>\<open>int\<close> only.
\<close>

definition new_DAG :: "nat \<Rightarrow> DAG" where
  "new_DAG n = \<lparr>vertexAmount = n, edgeList = replicate n [], visited = [], s = []\<rparr>"

text \<open>
  \<^verbatim>\<open>DAG::addEdge\<close>: the edge holds the negated weight and goes to the back of the list of
  its source. Writing to \<^verbatim>\<open>edgeList[source]\<close> outside the array has no defined result.
\<close>

definition addEdge :: "nat \<Rightarrow> nat \<Rightarrow> int32 \<Rightarrow> DAG \<Rightarrow> DAG option" where
  "addEdge source destination positiveWeight g =
     (if source < length (edgeList g)
      then Some (g\<lparr>edgeList := (edgeList g)
              [source := edgeList g ! source @
                 [\<lparr>vertexNum = destination, edgeWeight = - positiveWeight\<rparr>]]\<rparr>)
      else None)"

subsection \<open>\<^verbatim>\<open>DAG::topologicalSortRecursive\<close>\<close>

text \<open>
  The recursion of the source, with fuel for its depth: the function marks the vertex,
  calls itself on every successor that is not marked yet (\<open>visitEdges\<close> is the
  \<^verbatim>\<open>for\<close> loop over the edge list), and pushes the vertex.
\<close>

fun topologicalSortRecursive :: "nat \<Rightarrow> nat \<Rightarrow> DAG \<Rightarrow> DAG option"
  and visitEdges :: "nat \<Rightarrow> Edge list \<Rightarrow> DAG \<Rightarrow> DAG option" where
  "topologicalSortRecursive 0 vertex g = None"
| "topologicalSortRecursive (Suc fuel) vertex g =
     (if vertex < length (visited g) \<and> vertex < length (edgeList g)
      then (case visitEdges fuel (edgeList g ! vertex)
                   (g\<lparr>visited := (visited g)[vertex := True]\<rparr>) of
              None \<Rightarrow> None
            | Some g' \<Rightarrow> Some (g'\<lparr>s := vertex # s g'\<rparr>))
      else None)"
| "visitEdges fuel [] g = Some g"
| "visitEdges fuel (edge # rest) g =
     (if vertexNum edge < length (visited g)
      then (if \<not> visited g ! vertexNum edge
            then (case topologicalSortRecursive fuel (vertexNum edge) g of
                    None \<Rightarrow> None
                  | Some g' \<Rightarrow> visitEdges fuel rest g')
            else visitEdges fuel rest g)
      else None)"

subsection \<open>\<^verbatim>\<open>DAG::maximumSum\<close>\<close>

text \<open>
  The first loop: \<^verbatim>\<open>for (i = 0; i < vertexAmount; i++) if (!visited[i]) topologicalSortRecursive(i)\<close>.
  A call cannot nest deeper than the number of vertices, which is the fuel it gets.
\<close>

function sortVertices :: "nat \<Rightarrow> nat \<Rightarrow> DAG \<Rightarrow> DAG option" where
  "sortVertices n i g =
     (if i < n
      then (if i < length (visited g)
            then (if \<not> visited g ! i
                  then (case topologicalSortRecursive n i g of
                          None \<Rightarrow> None
                        | Some g' \<Rightarrow> sortVertices n (i + 1) g')
                  else sortVertices n (i + 1) g)
            else None)
      else Some g)"
  by pat_completeness auto
termination
  by (relation "measure (\<lambda>(n, i, g). n - i)") auto

declare sortVertices.simps [simp del]

text \<open>
  The relaxation of the edges of one vertex:
  \<^verbatim>\<open>if (sum[i->vertexNum] > sum[source] + i->edgeWeight) sum[i->vertexNum] = sum[source] + i->edgeWeight\<close>.
\<close>

fun relaxEdges :: "nat \<Rightarrow> Edge list \<Rightarrow> int32 list \<Rightarrow> int32 list option" where
  "relaxEdges source [] sumv = Some sumv"
| "relaxEdges source (i # rest) sumv =
     (if vertexNum i < length sumv \<and> source < length sumv
      then relaxEdges source rest
             (if sumv ! source + edgeWeight i <s sumv ! vertexNum i
              then sumv[vertexNum i := sumv ! source + edgeWeight i]
              else sumv)
      else None)"

text \<open>The \<^verbatim>\<open>while\<close> loop that pops the stack, from its top.\<close>

fun relaxStack :: "Edge list list \<Rightarrow> nat list \<Rightarrow> int32 list \<Rightarrow> int32 list option" where
  "relaxStack el [] sumv = Some sumv"
| "relaxStack el (source # rest) sumv =
     (if source < length sumv \<and> source < length el
      then (if sumv ! source \<noteq> INT_MAX
            then (case relaxEdges source (el ! source) sumv of
                    None \<Rightarrow> None
                  | Some sumv' \<Rightarrow> relaxStack el rest sumv')
            else relaxStack el rest sumv)
      else None)"

text \<open>What the program prints.\<close>

datatype printed = Maximum_Sum int32 | Maximum_sum_does_not_exist

text \<open>
  The last loop, \<^verbatim>\<open>for (i = vertexAmount - 1; i >= 0; i--)\<close>: the second argument is
  \<open>i + 1\<close>.
\<close>

fun printSum :: "int32 list \<Rightarrow> nat \<Rightarrow> printed" where
  "printSum sumv 0 = Maximum_sum_does_not_exist"
| "printSum sumv (Suc i) =
     (if sumv ! i \<noteq> INT_MAX then Maximum_Sum (- (sumv ! i)) else printSum sumv i)"

definition initSum :: "nat \<Rightarrow> int32 list option" where
  "initSum n = (if 0 < n then Some ((replicate n INT_MAX)[0 := 0]) else None)"

definition maximumSum :: "DAG \<Rightarrow> printed option" where
  "maximumSum g =
     do {
       g' \<leftarrow> sortVertices (vertexAmount g) 0
               (g\<lparr>visited := replicate (vertexAmount g) False\<rparr>);
       sumv \<leftarrow> initSum (vertexAmount g);
       sumv' \<leftarrow> relaxStack (edgeList g') (s g') sumv;
       Some (printSum sumv' (vertexAmount g))
     }"

subsection \<open>\<^verbatim>\<open>isPrime\<close>\<close>

text \<open>
  The loop \<^verbatim>\<open>for (int i = 5; i * i <= num; i += 6)\<close>. The product \<^verbatim>\<open>i * i\<close> is a 32-bit
  product, so the loop is not one that ends by its shape: \<open>None\<close> is a run that never
  returns.
\<close>

partial_function (option) isPrime_loop :: "int32 \<Rightarrow> int32 \<Rightarrow> bool option" where
  "isPrime_loop num i =
     (if i * i \<le>s num
      then (if c_rem num i = 0 \<or> c_rem num (i + 2) = 0 then Some False
            else isPrime_loop num (i + 6))
      else Some True)"

definition isPrime :: "int32 \<Rightarrow> bool option" where
  "isPrime num =
     (if num \<le>s 1 then Some False
      else if num \<le>s 3 then Some True
      else if c_rem num 2 = 0 \<or> c_rem num 3 = 0 then Some False
      else isPrime_loop num 5)"

subsection \<open>\<^verbatim>\<open>readInput\<close>\<close>

text \<open>
  \<^verbatim>\<open>in >> num\<close> on a stream of numbers: at the end of the stream the extraction fails and
  \<^verbatim>\<open>num\<close> keeps its value.
\<close>

definition read_int :: "int32 \<Rightarrow> int32 list \<Rightarrow> int32 \<times> int32 list" where
  "read_int num input = (case input of [] \<Rightarrow> (num, []) | x # rest \<Rightarrow> (x, rest))"

text \<open>An \<^verbatim>\<open>int\<close> used as a vertex number: a negative one indexes outside the array.\<close>

definition vertex_of :: "int \<Rightarrow> nat option" where
  "vertex_of k = (if 0 \<le> k then Some (nat k) else None)"

text \<open>
  The body of the inner loop for one number, once \<^verbatim>\<open>isPrime\<close> has returned false for it:
  the edges from the parents, and the edge to the stop node on the last level. The loop has
  \<^verbatim>\<open>j < i\<close>, so \<^verbatim>\<open>j + 1\<close> is within the range of \<^verbatim>\<open>int\<close>, and \<^verbatim>\<open>index+i-j\<close> is the sum
  \<^verbatim>\<open>index+i\<close> less \<open>j\<close>.
\<close>

definition addCell :: "nat \<Rightarrow> nat \<Rightarrow> nat \<Rightarrow> nat \<Rightarrow> int32 \<Rightarrow> DAG \<Rightarrow> DAG option" where
  "addCell N i j index num g =
     do {
       g1 \<leftarrow> (if j = 0
              then do { a \<leftarrow> vertex_of (int index - int i + 1); addEdge a index num g }
              else if j + 1 = i
              then do { a \<leftarrow> vertex_of (int index - int i); addEdge a index num g }
              else do { a \<leftarrow> vertex_of (int index - int i);
                        g0 \<leftarrow> addEdge a index num g;
                        b \<leftarrow> vertex_of (int index - int i + 1);
                        addEdge b index num g0 });
       if i = N then do { k \<leftarrow> int_add index i; addEdge index (k - j) 0 g1 } else Some g1
     }"

text \<open>
  The inner loop \<^verbatim>\<open>for (j = 0; j < i; j++, index++)\<close> and the outer loop
  \<^verbatim>\<open>for (i = 2; i <= N; i++)\<close>, on the state \<open>(index, num, input, pyramid)\<close>.
\<close>

type_synonym reader = "nat \<times> int32 \<times> int32 list \<times> DAG"

function readRow :: "nat \<Rightarrow> nat \<Rightarrow> nat \<Rightarrow> reader \<Rightarrow> reader option" where
  "readRow N i j (index, num, input, g) =
     (if j < i
      then (case read_int num input of
              (num', input') \<Rightarrow>
                do {
                  p \<leftarrow> isPrime num';
                  g' \<leftarrow> (if p = False then addCell N i j index num' g else Some g);
                  index' \<leftarrow> int_add index 1;
                  readRow N i (j + 1) (index', num', input', g')
                })
      else Some (index, num, input, g))"
  by pat_completeness auto
termination
  by (relation "measure (\<lambda>(N, i, j, st). i - j)") auto

declare readRow.simps [simp del]

function readRows :: "nat \<Rightarrow> nat \<Rightarrow> reader \<Rightarrow> reader option" where
  "readRows N i st =
     (if i \<le> N
      then do { st' \<leftarrow> readRow N i 0 st; i' \<leftarrow> int_add i 1; readRows N i' st' }
      else Some st)"
  by pat_completeness auto
termination
  by (relation "measure (\<lambda>(N, i, st). N + 1 - i)")
    (auto simp: int_add_def split: if_splits)

declare readRows.simps [simp del]

text \<open>
  The two overloads of \<^verbatim>\<open>readInput\<close> share their text from the allocation of the graph on
  (lines 168--204 and 220--257): \<open>buildPyramid N NSum input\<close>. The graph is allocated with
  \<^verbatim>\<open>NSum + 2\<close> vertices. When \<^verbatim>\<open>isPrime\<close> returns true for the first number, they return
  the graph without any edge.
\<close>

definition buildPyramid :: "nat \<Rightarrow> nat \<Rightarrow> int32 list \<Rightarrow> DAG option" where
  "buildPyramid N NSum input =
     do {
       V \<leftarrow> int_add NSum 2;
       let pyramid = new_DAG V;
       case read_int 0 input of
         (num, input') \<Rightarrow>
           do {
             p \<leftarrow> isPrime num;
             if p = True then Some pyramid
             else do {
               g \<leftarrow> addEdge 0 1 num pyramid;
               st \<leftarrow> readRows N 2 (2, num, input', g);
               Some (snd (snd (snd st)))
             }
           }
     }"

text \<open>
  \<^verbatim>\<open>readInput(int N, DAG *& pyramid)\<close> first sums \<^verbatim>\<open>1 + ... + N\<close> in the loop
  \<^verbatim>\<open>for (i = 1; i <= N; i++) NSum += i\<close>. A level count below 1 typed at the prompt skips
  every loop, as \<open>N = 0\<close> does.
\<close>

function sumLevels :: "nat \<Rightarrow> nat \<Rightarrow> nat \<Rightarrow> nat option" where
  "sumLevels N i NSum =
     (if i \<le> N
      then do { NSum' \<leftarrow> int_add NSum i; i' \<leftarrow> int_add i 1; sumLevels N i' NSum' }
      else Some NSum)"
  by pat_completeness auto
termination
  by (relation "measure (\<lambda>(N, i, NSum). N + 1 - i)")
    (auto simp: int_add_def split: if_splits)

declare sumLevels.simps [simp del]

definition readInput :: "nat \<Rightarrow> int32 list \<Rightarrow> DAG option" where
  "readInput N input = do { NSum \<leftarrow> sumLevels N 1 0; buildPyramid N NSum input }"

text \<open>
  \<^verbatim>\<open>readInput(ifstream& inFile, DAG *& pyramid)\<close> counts the lines of the file
  (\<^verbatim>\<open>Nsum += ++N\<close> for each) and then reads the numbers from the start, across the line
  ends. The file is the list of its lines, each the list of its numbers.
\<close>

fun countLines :: "int32 list list \<Rightarrow> nat \<times> nat \<Rightarrow> (nat \<times> nat) option" where
  "countLines [] (Nsum, N) = Some (Nsum, N)"
| "countLines (line # rest) (Nsum, N) =
     do { N' \<leftarrow> int_add N 1; Nsum' \<leftarrow> int_add Nsum N'; countLines rest (Nsum', N') }"

definition readInput_file :: "int32 list list \<Rightarrow> DAG option" where
  "readInput_file inFile =
     do {
       (Nsum, N) \<leftarrow> countLines inFile (0, 0);
       buildPyramid N Nsum (concat inFile)
     }"

text \<open>\<^verbatim>\<open>main\<close> with a file name: build the graph, then print the maximum sum.\<close>

definition main_file :: "int32 list list \<Rightarrow> printed option" where
  "main_file inFile = do { pyramid \<leftarrow> readInput_file inFile; maximumSum pyramid }"

definition main_terminal :: "nat \<Rightarrow> int32 list \<Rightarrow> printed option" where
  "main_terminal N input = do { pyramid \<leftarrow> readInput N input; maximumSum pyramid }"

section \<open>Notions for the claims\<close>

subsection \<open>Pyramids and their vertices\<close>

text \<open>\<open>triangle n = 1 + ... + n\<close>: the number of cells on the first \<open>n\<close> levels.\<close>

fun triangle :: "nat \<Rightarrow> nat" where
  "triangle 0 = 0"
| "triangle (Suc n) = triangle n + Suc n"

text \<open>
  The vertex of the cell at position \<open>j\<close> (from 0) of level \<open>i\<close> (from 1): vertex 0 is the
  start node, the cells follow level by level.
\<close>

definition cell :: "nat \<Rightarrow> nat \<Rightarrow> nat" where
  "cell i j = triangle (i - 1) + 1 + j"

text \<open>A number is forbidden when \<^verbatim>\<open>isPrime\<close> returns true for it.\<close>

definition forbidden :: "int32 \<Rightarrow> bool" where
  "forbidden v \<longleftrightarrow> isPrime v = Some True"

text \<open>
  A well-formed input: at least one level, and level \<open>i\<close> holds \<open>i\<close> numbers.
  \<open>pyramid_from i rows\<close> says so for rows that start at level \<open>i\<close>.
\<close>

fun pyramid_from :: "nat \<Rightarrow> int32 list list \<Rightarrow> bool" where
  "pyramid_from i [] = True"
| "pyramid_from i (row # rest) = (length row = i \<and> pyramid_from (Suc i) rest)"

definition pyramid :: "int32 list list \<Rightarrow> bool" where
  "pyramid rows \<longleftrightarrow> rows \<noteq> [] \<and> pyramid_from 1 rows"

subsection \<open>The calls of \<^verbatim>\<open>addEdge\<close> that the builder makes\<close>

text \<open>
  A call \<open>(source, destination, positiveWeight)\<close> of \<^verbatim>\<open>addEdge\<close>, the edge it stores, and
  the effect of a list of calls on the array of edge lists.
\<close>

type_synonym call = "nat \<times> nat \<times> int32"

definition callEdge :: "call \<Rightarrow> Edge" where
  "callEdge c = \<lparr>vertexNum = fst (snd c), edgeWeight = - snd (snd c)\<rparr>"

definition applyCalls :: "call list \<Rightarrow> Edge list list \<Rightarrow> Edge list list" where
  "applyCalls cs el = fold (\<lambda>c el. el[fst c := el ! fst c @ [callEdge c]]) cs el"

text \<open>
  The calls for one number that is not forbidden (from its parents, then to the stop
  node on the last level), for the numbers of one level, and for the levels from \<open>i\<close> on.
\<close>

definition parentCalls :: "nat \<Rightarrow> nat \<Rightarrow> nat \<Rightarrow> int32 \<Rightarrow> call list" where
  "parentCalls i j index v =
     (if j = 0 then [(index + 1 - i, index, v)]
      else if j + 1 = i then [(index - i, index, v)]
      else [(index - i, index, v), (index + 1 - i, index, v)])"

definition cellCalls :: "nat \<Rightarrow> nat \<Rightarrow> nat \<Rightarrow> nat \<Rightarrow> int32 \<Rightarrow> call list" where
  "cellCalls N i j index v =
     (if forbidden v then []
      else parentCalls i j index v @ (if i = N then [(index, index + i - j, 0)] else []))"

fun rowCalls :: "nat \<Rightarrow> nat \<Rightarrow> nat \<Rightarrow> nat \<Rightarrow> int32 list \<Rightarrow> call list" where
  "rowCalls N i j index [] = []"
| "rowCalls N i j index (v # vs) =
     cellCalls N i j index v @ rowCalls N i (Suc j) (Suc index) vs"

fun rowsCalls :: "nat \<Rightarrow> nat \<Rightarrow> nat \<Rightarrow> int32 list list \<Rightarrow> call list" where
  "rowsCalls N i index [] = []"
| "rowsCalls N i index (row # rest) =
     rowCalls N i 0 index row @ rowsCalls N (Suc i) (index + length row) rest"

definition pyramidCalls :: "int32 list list \<Rightarrow> call list" where
  "pyramidCalls rows =
     (if forbidden (hd (hd rows)) then []
      else (0, 1, hd (hd rows)) # rowsCalls (length rows) 2 2 (tl rows))"

text \<open>The graph that \<^verbatim>\<open>readInput\<close> is shown to build for a well-formed input.\<close>

definition pyramidGraph :: "int32 list list \<Rightarrow> DAG" where
  "pyramidGraph rows =
     (new_DAG (triangle (length rows) + 2))
       \<lparr>edgeList := applyCalls (pyramidCalls rows) (replicate (triangle (length rows) + 2) [])\<rparr>"

subsection \<open>Notions for the depth-first sort\<close>

text \<open>Every edge leads to a vertex with a higher number, below the number of vertices.\<close>

definition forward :: "Edge list list \<Rightarrow> nat \<Rightarrow> bool" where
  "forward el V \<longleftrightarrow>
     length el = V \<and> (\<forall>u<V. \<forall>e\<in>set (el ! u). u < vertexNum e \<and> vertexNum e < V)"

text \<open>A stack (top first) in which every successor of a vertex lies below the vertex.\<close>

fun finished :: "Edge list list \<Rightarrow> nat list \<Rightarrow> bool" where
  "finished el [] = True"
| "finished el (u # below) =
     ((\<forall>e\<in>set (el ! u). vertexNum e \<in> set below) \<and> finished el below)"

text \<open>\<open>y\<close> occurs after the first \<open>x\<close>.\<close>

fun precedes :: "nat \<Rightarrow> nat \<Rightarrow> nat list \<Rightarrow> bool" where
  "precedes x y [] = False"
| "precedes x y (z # zs) = (if z = x then y \<in> set zs else precedes x y zs)"

text \<open>
  The invariant of the sort, for a bound \<open>v\<close>: the stack is duplicate-free and finished,
  holds marked vertices only, and holds every marked vertex from \<open>v\<close> on (the marked
  vertices that are not on the stack yet are the callers, all below \<open>v\<close>). A call for
  \<open>v\<close> leaves the marks below \<open>v\<close> alone and pushes vertices from \<open>v\<close> on only.
\<close>

definition sortInv :: "Edge list list \<Rightarrow> nat \<Rightarrow> nat \<Rightarrow> DAG \<Rightarrow> bool" where
  "sortInv el V v g \<longleftrightarrow>
     edgeList g = el \<and> length (visited g) = V \<and> distinct (s g) \<and> finished el (s g) \<and>
     (\<forall>w\<in>set (s g). w < V \<and> visited g ! w) \<and>
     (\<forall>w. v \<le> w \<and> w < V \<and> visited g ! w \<longrightarrow> w \<in> set (s g))"

definition sortStep :: "nat \<Rightarrow> DAG \<Rightarrow> DAG \<Rightarrow> bool" where
  "sortStep v g g' \<longleftrightarrow>
     (\<forall>w<v. visited g' ! w = visited g ! w) \<and> set (s g) \<subseteq> set (s g') \<and>
     (\<forall>w\<in>set (s g'). w \<in> set (s g) \<or> v \<le> w)"

subsection \<open>Prime numbers\<close>

text \<open>
  What the claim about \<^verbatim>\<open>isPrime\<close> calls a prime number: an integer above 1 without a
  divisor strictly between 1 and itself.
\<close>

definition prime_number :: "int \<Rightarrow> bool" where
  "prime_number n \<longleftrightarrow> 1 < n \<and> (\<forall>d. 1 < d \<and> d < n \<longrightarrow> \<not> d dvd n)"

text \<open>
  None of the candidates \<open>i, i + 2, i + 6, i + 8, ...\<close> below \<open>j\<close> divides \<open>n\<close>: the divisors
  that the loop of \<^verbatim>\<open>isPrime\<close> tries, over the integers.
\<close>

function no_div :: "int \<Rightarrow> int \<Rightarrow> int \<Rightarrow> bool" where
  "no_div n i j =
     (if i < j then n mod i \<noteq> 0 \<and> n mod (i + 2) \<noteq> 0 \<and> no_div n (i + 6) j else True)"
  by pat_completeness auto
termination
  by (relation "measure (\<lambda>(n, i, j). nat (j - i))") auto

declare no_div.simps [simp del]

subsection \<open>Incoming edges\<close>

text \<open>
  The edges that enter vertex \<open>w\<close>, as pairs of source and stored weight, in the order of
  the sources; its length is the in-degree of \<open>w\<close>.
\<close>

definition incoming :: "DAG \<Rightarrow> nat \<Rightarrow> (nat \<times> int32) list" where
  "incoming g w =
     concat (map (\<lambda>u. map (\<lambda>e. (u, edgeWeight e))
                          (filter (\<lambda>e. vertexNum e = w) (edgeList g ! u)))
                 [0..<vertexAmount g])"

declare isPrime_loop.simps [code]

section \<open>Counters within the range of \<^verbatim>\<open>int\<close>\<close>

text \<open>The range test of \<open>int_add\<close>, over the integers.\<close>

lemma int_add_code [code]:
  "int_add a b = (if int a + int b \<le> 2147483647 then Some (a + b) else None)"
proof -
  have "a + b \<le> 2147483647 \<longleftrightarrow> int a + int b \<le> 2147483647" by linarith
  then show ?thesis by (simp only: int_add_def)
qed

section \<open>\<^verbatim>\<open>isPrime\<close> returns\<close>

text \<open>
  The loop variable runs through \<open>5, 11, 17, ...\<close> modulo \<open>2^32\<close> and reaches 1 after
  715827882 steps; every number has remainder 0 by 1, so the loop has returned by then.
\<close>

lemma c_rem_1: "c_rem num 1 = 0"
  by (simp add: c_rem_def signed_modulo_int_def)

lemma isPrime_loop_step:
  "\<exists>b. isPrime_loop num (i + 6) = Some b \<Longrightarrow> \<exists>b. isPrime_loop num i = Some b"
  by (subst isPrime_loop.simps) auto

lemma isPrime_loop_descend:
  "\<exists>b. isPrime_loop num (1 - 6 * of_nat n) = Some b"
proof (induction n)
  case 0
  show ?case by (subst isPrime_loop.simps) (auto simp add: c_rem_1)
next
  case (Suc n)
  have "1 - 6 * of_nat (Suc n) + 6 = (1 - 6 * of_nat n :: int32)"
    by simp
  with Suc have "\<exists>b. isPrime_loop num (1 - 6 * of_nat (Suc n) + 6) = Some b"
    by (simp only:)
  then show ?case
    by (rule isPrime_loop_step)
qed

lemma isPrime_loop_5_returns: "\<exists>b. isPrime_loop num 5 = Some b"
proof -
  have e: "(1 - 6 * of_nat 715827882 :: int32) = 5" by simp
  show ?thesis using isPrime_loop_descend [of num 715827882] unfolding e .
qed

lemma isPrime_returns: "\<exists>b. isPrime num = Some b"
proof -
  obtain b where "isPrime_loop num 5 = Some b"
    using isPrime_loop_5_returns [of num] by blast
  then show ?thesis
    unfolding isPrime_def by auto
qed

section \<open>What \<^verbatim>\<open>readInput\<close> builds\<close>

lemma isPrime_forbidden: "isPrime v = Some (forbidden v)"
  using isPrime_returns [of v] by (auto simp: forbidden_def)

lemma applyCalls_append: "applyCalls (a @ b) el = applyCalls b (applyCalls a el)"
  by (simp add: applyCalls_def)

lemma applyCalls_Nil: "applyCalls [] el = el"
  by (simp add: applyCalls_def)

lemma applyCalls_two: "applyCalls [a, b] el = applyCalls [b] (applyCalls [a] el)"
  by (simp add: applyCalls_def)

lemma length_applyCalls: "length (applyCalls cs el) = length el"
  unfolding applyCalls_def by (induction cs arbitrary: el) auto

lemma int_add_Some: "a + b \<le> 2147483647 \<Longrightarrow> int_add a b = Some (a + b)"
  by (simp add: int_add_def)

lemma addEdge_call:
  "source < length (edgeList g) \<Longrightarrow>
   addEdge source destination w g =
     Some (g\<lparr>edgeList := applyCalls [(source, destination, w)] (edgeList g)\<rparr>)"
  by (simp add: addEdge_def applyCalls_def callEdge_def)

lemma vertex_of_diff: "i \<le> index \<Longrightarrow> vertex_of (int index - int i) = Some (index - i)"
  by (simp add: vertex_of_def nat_diff_distrib')

lemma vertex_of_diff1: "i \<le> index \<Longrightarrow> vertex_of (int index - int i + 1) = Some (index + 1 - i)"
  by (auto simp add: vertex_of_def nat_diff_distrib' nat_add_distrib)

lemma addCell_calls:
  assumes "0 < i" "i \<le> index" "index < length (edgeList g)" "index + i \<le> 2147483647"
  shows "addCell N i j index v g =
     Some (g\<lparr>edgeList := applyCalls
        (parentCalls i j index v @ (if i = N then [(index, index + i - j, 0)] else []))
        (edgeList g)\<rparr>)"
proof -
  have a: "index - i < length (edgeList g)" "index + 1 - i < length (edgeList g)"
    using assms by simp_all
  show ?thesis
    using assms a
    by (simp add: addCell_def parentCalls_def vertex_of_diff vertex_of_diff1 addEdge_call
        applyCalls_append applyCalls_Nil applyCalls_two length_applyCalls int_add_Some)
qed

lemma readRow_calls:
  "length vs = i - j \<Longrightarrow> j \<le> i \<Longrightarrow> i \<le> index \<Longrightarrow> index + length vs \<le> length (edgeList g) \<Longrightarrow>
   0 < i \<Longrightarrow> index + length vs + i \<le> 2147483647 \<Longrightarrow>
   readRow N i j (index, num, vs @ rest, g) =
     Some (index + length vs, last (num # vs), rest,
           g\<lparr>edgeList := applyCalls (rowCalls N i j index vs) (edgeList g)\<rparr>)"
proof (induction vs arbitrary: j index num g)
  case Nil
  then show ?case by (subst readRow.simps) (simp add: applyCalls_Nil)
next
  case (Cons v vs)
  then have j: "j < i" by simp
  have len: "length vs = i - Suc j" "Suc j \<le> i" "i \<le> Suc index"
    using Cons.prems by simp_all
  note i = \<open>0 < i\<close>
  have b: "Suc index + length vs + i \<le> 2147483647" using Cons.prems by simp
  then have next_index: "int_add index 1 = Some (Suc index)" by (simp add: int_add_def)
  show ?case
  proof (cases "forbidden v")
    case True
    have "Suc index + length vs \<le> length (edgeList g)" using Cons.prems by simp
    from Cons.IH [OF len(1,2,3) this i b] True j next_index
    show ?thesis
      by (subst readRow.simps)
        (simp add: read_int_def isPrime_forbidden cellCalls_def applyCalls_Nil)
  next
    case False
    let ?cs = "parentCalls i j index v @ (if i = N then [(index, index + i - j, 0)] else [])"
    let ?g = "g\<lparr>edgeList := applyCalls ?cs (edgeList g)\<rparr>"
    have cell: "addCell N i j index v g = Some ?g"
      using Cons.prems by (intro addCell_calls) simp_all
    have "Suc index + length vs \<le> length (edgeList ?g)"
      using Cons.prems by (simp add: length_applyCalls)
    from Cons.IH [OF len(1,2,3) this i b] False j cell next_index
    show ?thesis
      by (subst readRow.simps)
        (simp add: read_int_def isPrime_forbidden cellCalls_def applyCalls_append)
  qed
qed

lemma pyramid_from_length_concat:
  "pyramid_from i rws \<Longrightarrow> triangle (i - 1) + length (concat rws) = triangle (i + length rws - 1)"
proof (induction rws arbitrary: i)
  case Nil
  then show ?case by simp
next
  case (Cons r rs)
  then have "length r = i" "pyramid_from (Suc i) rs" by simp_all
  with Cons.IH [of "Suc i"] show ?case
    by (cases i) simp_all
qed

lemma last_last: "last (last (x # xs) # ys) = last (x # xs @ ys)"
  by (cases "ys = []") simp_all

lemma readRows_calls:
  "pyramid_from i rws \<Longrightarrow> i + length rws = N + 1 \<Longrightarrow> 0 < i \<Longrightarrow> i \<le> index \<Longrightarrow>
   index + length (concat rws) \<le> length (edgeList g) \<Longrightarrow>
   index + length (concat rws) + N \<le> 2147483647 \<Longrightarrow>
   readRows N i (index, num, concat rws, g) =
     Some (index + length (concat rws), last (num # concat rws), [],
           g\<lparr>edgeList := applyCalls (rowsCalls N i index rws) (edgeList g)\<rparr>)"
proof (induction rws arbitrary: i index num g)
  case Nil
  then show ?case by (subst readRows.simps) (simp add: applyCalls_Nil)
next
  case (Cons r rs)
  then have r: "length r = i" and rs: "pyramid_from (Suc i) rs" by simp_all
  have iN: "i \<le> N" using Cons.prems by simp
  let ?g = "g\<lparr>edgeList := applyCalls (rowCalls N i 0 index r) (edgeList g)\<rparr>"
  have row: "readRow N i 0 (index, num, r @ concat rs, g) =
      Some (index + length r, last (num # r), concat rs, ?g)"
    using Cons.prems r by (intro readRow_calls) simp_all
  have rest: "readRows N (Suc i) (index + length r, last (num # r), concat rs, ?g) =
      Some (index + length r + length (concat rs), last (last (num # r) # concat rs), [],
            ?g\<lparr>edgeList := applyCalls (rowsCalls N (Suc i) (index + length r) rs) (edgeList ?g)\<rparr>)"
    using Cons.prems r rs by (intro Cons.IH) (simp_all add: length_applyCalls)
  note last = last_last [of num r "concat rs"]
  have next_i: "int_add i 1 = Some (Suc i)"
    using Cons.prems iN by (simp add: int_add_def)
  show ?case
    using iN row rest last next_i
    by (subst readRows.simps) (simp add: applyCalls_append add.assoc)
qed

lemma triangle_mono: "a \<le> b \<Longrightarrow> triangle a \<le> triangle b"
  by (induction b) (auto simp: le_Suc_eq)

lemma triangle_formula: "triangle N = N * (N + 1) div 2"
  by (induction N) simp_all

text \<open>
  The sizes without overflow. With \<open>N < 65536\<close> levels the vertex count \<open>N (N + 1) / 2 + 2\<close>
  is at most \<open>2147450882\<close>. The largest sum that the loops form is \<^verbatim>\<open>index+i\<close> at the last
  number of the last level, \<open>N (N + 1) / 2 + N\<close>: it is within the range of \<^verbatim>\<open>int\<close> for
  \<open>N < 65535\<close>, and above it for \<open>N = 65535\<close>.
\<close>

lemma triangle_65535: "N < 65536 \<Longrightarrow> triangle N + 2 \<le> 2147483647"
proof -
  assume "N < 65536"
  then have "triangle N \<le> triangle 65535" by (intro triangle_mono) simp
  also have "\<dots> = 2147450880" by (simp add: triangle_formula)
  finally show ?thesis by simp
qed

lemma triangle_65534: "N < 65535 \<Longrightarrow> triangle N + N + 1 \<le> 2147483647"
proof -
  assume N: "N < 65535"
  then have "triangle N \<le> triangle 65534" by (intro triangle_mono) simp
  also have "\<dots> = 2147385345" by (simp add: triangle_formula)
  finally show ?thesis using N by simp
qed

lemma sumLevels_triangle:
  "0 < i \<Longrightarrow> i \<le> N + 1 \<Longrightarrow> NSum = triangle (i - 1) \<Longrightarrow> triangle N + 2 \<le> 2147483647 \<Longrightarrow>
   sumLevels N i NSum = Some (triangle N)"
proof (induction N i NSum rule: sumLevels.induct)
  case (1 N i NSum)
  show ?case
  proof (cases "i \<le> N")
    case True
    have tri: "triangle i = triangle (i - 1) + i" using "1.prems"(1) by (cases i) simp_all
    have "triangle i \<le> triangle N" using True by (rule triangle_mono)
    with tri "1.prems" have a: "int_add NSum i = Some (triangle i)"
      by (simp add: int_add_def)
    have "i \<le> triangle i" using tri by simp
    with \<open>triangle i \<le> triangle N\<close> "1.prems"(4) have b: "int_add i 1 = Some (i + 1)"
      by (simp add: int_add_def)
    have "sumLevels N (i + 1) (triangle i) = Some (triangle N)"
      using True "1.prems"(4) by (intro "1.IH" [OF True a b]) simp_all
    with True a b show ?thesis by (subst sumLevels.simps) simp
  next
    case False
    with "1.prems" have "i = N + 1" by simp
    with "1.prems"(3) show ?thesis by (subst sumLevels.simps) simp
  qed
qed

lemma sumLevels_eq: "N < 65536 \<Longrightarrow> sumLevels N 1 0 = Some (triangle N)"
  using triangle_65535 [of N] by (intro sumLevels_triangle) simp_all

lemma countLines_eq:
  "Nsum = triangle N \<Longrightarrow> triangle (N + length rows) + 2 \<le> 2147483647 \<Longrightarrow>
   countLines rows (Nsum, N) = Some (triangle (N + length rows), N + length rows)"
proof (induction rows arbitrary: Nsum N)
  case Nil
  then show ?case by simp
next
  case (Cons r rs)
  have le: "triangle (Suc N) \<le> triangle (N + length (r # rs))"
    by (intro triangle_mono) simp
  have "Suc N \<le> triangle (Suc N)" by simp
  with le Cons.prems(2) have a: "int_add N 1 = Some (Suc N)"
    by (simp add: int_add_def)
  have b: "int_add Nsum (Suc N) = Some (triangle (Suc N))"
    using le Cons.prems by (simp add: int_add_def)
  have "countLines rs (triangle (Suc N), Suc N) =
      Some (triangle (Suc N + length rs), Suc N + length rs)"
    using Cons.prems(2) by (intro Cons.IH) simp_all
  with a b show ?case by simp
qed

lemma countLines_0:
  "length rows < 65536 \<Longrightarrow> countLines rows (0, 0) = Some (triangle (length rows), length rows)"
  using countLines_eq [of 0 0 rows] triangle_65535 [of "length rows"] by simp


lemma buildPyramid_calls:
  assumes "pyramid rows" "length rows < 65535"
  shows "buildPyramid (length rows) (triangle (length rows)) (concat rows) = Some (pyramidGraph rows)"
proof -
  from assms obtain r rs where rows: "rows = r # rs" and r: "length r = 1"
    and rs: "pyramid_from 2 rs"
    by (cases rows) (auto simp: pyramid_def numeral_2_eq_2)
  from r obtain a where a: "r = [a]" by (cases r) auto
  let ?V = "triangle (length rows) + 2"
  have len: "Suc (length (concat rs)) = triangle (length rows)"
    using pyramid_from_length_concat [OF rs] by (simp add: rows)
  note size = triangle_65534 [OF assms(2)]
  then have V: "int_add (triangle (length rows)) 2 = Some ?V"
    by (simp add: int_add_def rows)
  show ?thesis
  proof (cases "forbidden a")
    case True
    with V show ?thesis
      by (simp add: buildPyramid_def pyramidGraph_def pyramidCalls_def rows a read_int_def
          isPrime_forbidden applyCalls_Nil new_DAG_def)
  next
    case False
    let ?g = "(new_DAG ?V)\<lparr>edgeList := applyCalls [(0, 1, a)] (edgeList (new_DAG ?V))\<rparr>"
    have first: "addEdge 0 1 a (new_DAG ?V) = Some ?g"
      by (intro addEdge_call) (simp add: new_DAG_def)
    have "readRows (length rows) 2 (2, a, concat rs, ?g) =
      Some (2 + length (concat rs), last (a # concat rs), [],
           ?g\<lparr>edgeList := applyCalls (rowsCalls (length rows) 2 2 rs) (edgeList ?g)\<rparr>)"
      using rs len size
      by (intro readRows_calls) (simp_all add: rows length_applyCalls new_DAG_def)
    with False first V show ?thesis
      by (simp add: buildPyramid_def pyramidGraph_def pyramidCalls_def rows a read_int_def
          isPrime_forbidden new_DAG_def applyCalls_def)
  qed
qed

lemma readInput_file_pyramid:
  "pyramid rows \<Longrightarrow> length rows < 65535 \<Longrightarrow> readInput_file rows = Some (pyramidGraph rows)"
  by (simp add: readInput_file_def countLines_0 buildPyramid_calls)

lemma readInput_pyramid:
  assumes "pyramid rows" "length rows < 65535"
  shows "readInput (length rows) (concat rows) = Some (pyramidGraph rows)"
proof -
  have "sumLevels (length rows) 1 0 = Some (triangle (length rows))"
    using assms(2) by (intro sumLevels_eq) simp
  then show ?thesis
    unfolding readInput_def by (simp add: buildPyramid_calls [OF assms])
qed


lemma applyCalls_nth:
  "u < length el \<Longrightarrow>
   applyCalls cs el ! u = el ! u @ map callEdge (filter (\<lambda>c. fst c = u) cs)"
proof (induction cs arbitrary: el)
  case Nil
  then show ?case by (simp add: applyCalls_def)
next
  case (Cons c cs)
  let ?el = "el[fst c := el ! fst c @ [callEdge c]]"
  have "applyCalls (c # cs) el = applyCalls cs ?el" by (simp add: applyCalls_def)
  moreover have "applyCalls cs ?el ! u = ?el ! u @ map callEdge (filter (\<lambda>c. fst c = u) cs)"
    using Cons.prems by (intro Cons.IH) simp
  ultimately show ?case using Cons.prems by (auto simp: nth_list_update)
qed

lemma parentCalls_range:
  "c \<in> set (parentCalls i j index v) \<Longrightarrow> 2 \<le> i \<Longrightarrow> i \<le> index \<Longrightarrow>
   fst c < index \<and> fst (snd c) = index \<and> snd (snd c) = v"
  by (auto simp: parentCalls_def split: if_splits)

lemma cellCalls_range:
  "c \<in> set (cellCalls N i j index v) \<Longrightarrow> 2 \<le> i \<Longrightarrow> i \<le> index \<Longrightarrow> j < i \<Longrightarrow>
   fst c < fst (snd c) \<and> index \<le> fst (snd c) \<and> fst (snd c) \<le> index + i - j"
  by (auto simp: cellCalls_def dest!: parentCalls_range split: if_splits)

lemma rowCalls_range:
  "c \<in> set (rowCalls N i j index vs) \<Longrightarrow> 2 \<le> i \<Longrightarrow> i \<le> index \<Longrightarrow> j + length vs \<le> i \<Longrightarrow>
   fst c < fst (snd c) \<and> index \<le> fst (snd c) \<and> fst (snd c) \<le> index + i - j"
proof (induction vs arbitrary: j index)
  case Nil
  then show ?case by simp
next
  case (Cons v vs)
  from Cons.prems(1) consider "c \<in> set (cellCalls N i j index v)"
    | "c \<in> set (rowCalls N i (Suc j) (Suc index) vs)" by auto
  then show ?case
  proof cases
    case 1
    then show ?thesis using Cons.prems by (intro cellCalls_range) simp_all
  next
    case 2
    have "fst c < fst (snd c) \<and> Suc index \<le> fst (snd c) \<and> fst (snd c) \<le> Suc index + i - Suc j"
      using 2 Cons.prems by (intro Cons.IH) simp_all
    then show ?thesis by simp
  qed
qed

lemma rowsCalls_range:
  "c \<in> set (rowsCalls N i index rws) \<Longrightarrow> pyramid_from i rws \<Longrightarrow> 2 \<le> i \<Longrightarrow> i \<le> index \<Longrightarrow>
   fst c < fst (snd c) \<and> index \<le> fst (snd c) \<and> fst (snd c) \<le> index + length (concat rws)"
proof (induction rws arbitrary: i index)
  case Nil
  then show ?case by simp
next
  case (Cons r rs)
  then have r: "length r = i" and rs: "pyramid_from (Suc i) rs" by simp_all
  from Cons.prems(1) consider "c \<in> set (rowCalls N i 0 index r)"
    | "c \<in> set (rowsCalls N (Suc i) (index + length r) rs)" by auto
  then show ?case
  proof cases
    case 1
    have "0 + length r \<le> i" using r by simp
    from rowCalls_range [OF 1 Cons.prems(3,4) this] r show ?thesis by simp
  next
    case 2
    have "2 \<le> Suc i" "Suc i \<le> index + length r" using Cons.prems r by simp_all
    from Cons.IH [OF 2 rs this] show ?thesis by simp
  qed
qed

lemma pyramid_cases:
  assumes "pyramid rows"
  obtains a rs where "rows = [a] # rs" "pyramid_from 2 rs"
    "Suc (length (concat rs)) = triangle (length rows)"
proof -
  from assms obtain r rs where rows: "rows = r # rs" and r: "length r = 1"
    and rs: "pyramid_from 2 rs"
    by (cases rows) (auto simp: pyramid_def numeral_2_eq_2)
  from r obtain a where a: "r = [a]" by (cases r) auto
  have "Suc (length (concat rs)) = triangle (length rows)"
    using pyramid_from_length_concat [OF rs] by (simp add: rows)
  with rows a rs show ?thesis using that by blast
qed

lemma pyramidCalls_range:
  assumes "pyramid rows" "c \<in> set (pyramidCalls rows)"
  shows "fst c < fst (snd c) \<and> fst (snd c) < triangle (length rows) + 2"
proof -
  from assms(1) obtain a rs where rows: "rows = [a] # rs" and rs: "pyramid_from 2 rs"
    and len: "Suc (length (concat rs)) = triangle (length rows)"
    by (rule pyramid_cases)
  from assms(2) consider "c = (0, 1, a)" | "c \<in> set (rowsCalls (length rows) 2 2 rs)"
    by (auto simp: pyramidCalls_def rows split: if_splits)
  then show ?thesis
  proof cases
    case 1
    then show ?thesis by simp
  next
    case 2
    from rowsCalls_range [OF 2 rs] len show ?thesis by simp
  qed
qed

section \<open>The depth-first sort\<close>

lemma sortInvI:
  assumes "edgeList g = el" "length (visited g) = V" "distinct (s g)" "finished el (s g)"
    "\<And>w. w \<in> set (s g) \<Longrightarrow> w < V \<and> visited g ! w"
    "\<And>w. v \<le> w \<Longrightarrow> w < V \<Longrightarrow> visited g ! w \<Longrightarrow> w \<in> set (s g)"
  shows "sortInv el V v g"
  using assms unfolding sortInv_def by blast

lemma sortInv_stack: "sortInv el V v g \<Longrightarrow> w \<in> set (s g) \<Longrightarrow> w < V \<and> visited g ! w"
  unfolding sortInv_def by blast

lemma sortInv_visited:
  "sortInv el V v g \<Longrightarrow> v \<le> w \<Longrightarrow> w < V \<Longrightarrow> visited g ! w \<Longrightarrow> w \<in> set (s g)"
  unfolding sortInv_def by blast

lemma sortInv_fields:
  "sortInv el V v g \<Longrightarrow>
   edgeList g = el \<and> length (visited g) = V \<and> distinct (s g) \<and> finished el (s g)"
  unfolding sortInv_def by blast

lemma sortStepI:
  assumes "\<And>w. w < v \<Longrightarrow> visited g' ! w = visited g ! w"
    "\<And>w. w \<in> set (s g) \<Longrightarrow> w \<in> set (s g')"
    "\<And>w. w \<in> set (s g') \<Longrightarrow> w \<in> set (s g) \<or> v \<le> w"
  shows "sortStep v g g'"
  using assms unfolding sortStep_def by blast

lemma sortStep_visited: "sortStep v g g' \<Longrightarrow> w < v \<Longrightarrow> visited g' ! w = visited g ! w"
  unfolding sortStep_def by blast

lemma sortStep_grows: "sortStep v g g' \<Longrightarrow> w \<in> set (s g) \<Longrightarrow> w \<in> set (s g')"
  unfolding sortStep_def by blast

lemma sortStep_new: "sortStep v g g' \<Longrightarrow> w \<in> set (s g') \<Longrightarrow> w \<in> set (s g) \<or> v \<le> w"
  unfolding sortStep_def by blast

lemma sortInv_mono:
  assumes "sortInv el V a g" "a \<le> b"
  shows "sortInv el V b g"
proof (rule sortInvI)
  fix w assume "b \<le> w" "w < V" "visited g ! w"
  with assms show "w \<in> set (s g)" by (intro sortInv_visited [OF assms(1)]) simp_all
qed (use sortInv_fields [OF assms(1)] sortInv_stack [OF assms(1)] in simp_all)

lemma sortInv_below:
  assumes "sortInv el V a g" "sortInv el V b g'" "sortStep b g g'"
  shows "sortInv el V a g'"
proof (rule sortInvI)
  fix w assume w: "a \<le> w" "w < V" "visited g' ! w"
  show "w \<in> set (s g')"
  proof (cases "b \<le> w")
    case True
    with w show ?thesis by (intro sortInv_visited [OF assms(2)])
  next
    case False
    then have "visited g' ! w = visited g ! w"
      by (intro sortStep_visited [OF assms(3)]) simp
    with w have "w \<in> set (s g)" by (intro sortInv_visited [OF assms(1)]) simp_all
    then show ?thesis by (rule sortStep_grows [OF assms(3)])
  qed
qed (use sortInv_fields [OF assms(2)] sortInv_stack [OF assms(2)] in simp_all)

lemma sortStep_trans:
  assumes "sortStep a g g'" "sortStep b g' g''" "c \<le> a" "c \<le> b"
  shows "sortStep c g g''"
proof (rule sortStepI)
  fix w assume "w < c"
  then have "w < a" "w < b" using assms(3,4) by simp_all
  then show "visited g'' ! w = visited g ! w"
    using sortStep_visited [OF assms(1), of w] sortStep_visited [OF assms(2), of w] by simp
next
  fix w assume "w \<in> set (s g)"
  then have "w \<in> set (s g')" by (rule sortStep_grows [OF assms(1)])
  then show "w \<in> set (s g'')" by (rule sortStep_grows [OF assms(2)])
next
  fix w assume "w \<in> set (s g'')"
  then consider "w \<in> set (s g')" | "b \<le> w" using sortStep_new [OF assms(2)] by blast
  then show "w \<in> set (s g) \<or> c \<le> w"
  proof cases
    case 1
    then show ?thesis using sortStep_new [OF assms(1), of w] assms(3) by auto
  next
    case 2
    then show ?thesis using assms(4) by simp
  qed
qed

lemma sortStep_refl: "sortStep a g g"
  by (rule sortStepI) simp_all

lemma visitEdges_sorts:
  assumes IH: "\<And>w g. sortInv el V w g \<Longrightarrow> w < V \<Longrightarrow> \<not> visited g ! w \<Longrightarrow> V - w \<le> fuel \<Longrightarrow>
      \<exists>g'. topologicalSortRecursive fuel w g = Some g' \<and> sortInv el V w g' \<and>
        sortStep w g g' \<and> visited g' ! w"
  shows "sortInv el V (Suc v) g \<Longrightarrow> \<forall>e\<in>set es. v < vertexNum e \<and> vertexNum e < V \<Longrightarrow>
      V - Suc v \<le> fuel \<Longrightarrow>
      \<exists>g'. visitEdges fuel es g = Some g' \<and> sortInv el V (Suc v) g' \<and>
        sortStep (Suc v) g g' \<and> (\<forall>e\<in>set es. vertexNum e \<in> set (s g'))"
proof (induction es arbitrary: g)
  case Nil
  then show ?case by (simp add: sortStep_refl)
next
  case (Cons e es)
  let ?w = "vertexNum e"
  from Cons.prems have w: "v < ?w" "?w < V" and es: "\<forall>e\<in>set es. v < vertexNum e \<and> vertexNum e < V"
    by simp_all
  from sortInv_fields [OF Cons.prems(1)] have len: "length (visited g) = V" by simp
  show ?case
  proof (cases "visited g ! ?w")
    case True
    with w have in_s: "?w \<in> set (s g)"
      by (intro sortInv_visited [OF Cons.prems(1)]) simp_all
    from Cons.IH [OF Cons.prems(1) es Cons.prems(3)] obtain g' where
      g': "visitEdges fuel es g = Some g'" "sortInv el V (Suc v) g'" "sortStep (Suc v) g g'"
        "\<forall>e\<in>set es. vertexNum e \<in> set (s g')" by blast
    from in_s have in_s': "?w \<in> set (s g')" by (rule sortStep_grows [OF g'(3)])
    have eq: "visitEdges fuel (e # es) g = visitEdges fuel es g"
      using True w len by simp
    show ?thesis
      unfolding eq using g' in_s' by (intro exI [of _ g']) simp
  next
    case False
    have "sortInv el V ?w g" using Cons.prems(1) by (rule sortInv_mono) (use w in simp)
    moreover have "V - ?w \<le> fuel" using Cons.prems(3) w by simp
    ultimately obtain g1 where g1: "topologicalSortRecursive fuel ?w g = Some g1"
      "sortInv el V ?w g1" "sortStep ?w g g1" "visited g1 ! ?w"
      using IH [of ?w g] w False by blast
    have inv1: "sortInv el V (Suc v) g1"
      using Cons.prems(1) g1(2,3) by (rule sortInv_below)
    from Cons.IH [OF inv1 es Cons.prems(3)] obtain g' where
      g': "visitEdges fuel es g1 = Some g'" "sortInv el V (Suc v) g'" "sortStep (Suc v) g1 g'"
        "\<forall>e\<in>set es. vertexNum e \<in> set (s g')" by blast
    have "?w \<in> set (s g1)" using g1(4) w by (intro sortInv_visited [OF g1(2)]) simp_all
    then have in_s: "?w \<in> set (s g')" by (rule sortStep_grows [OF g'(3)])
    have "sortStep (Suc v) g g'"
      using g1(3) g'(3) by (rule sortStep_trans) (use w in simp_all)
    have eq: "visitEdges fuel (e # es) g = visitEdges fuel es g1"
      using False w len g1(1) by simp
    show ?thesis
      unfolding eq using g' in_s \<open>sortStep (Suc v) g g'\<close> by (intro exI [of _ g']) simp
  qed
qed

lemma topologicalSortRecursive_sorts:
  assumes fw: "forward el V"
  shows "sortInv el V v g \<Longrightarrow> v < V \<Longrightarrow> \<not> visited g ! v \<Longrightarrow> V - v \<le> fuel \<Longrightarrow>
      \<exists>g'. topologicalSortRecursive fuel v g = Some g' \<and> sortInv el V v g' \<and>
        sortStep v g g' \<and> visited g' ! v"
proof (induction fuel arbitrary: v g)
  case 0
  then show ?case by simp
next
  case (Suc fuel)
  let ?g1 = "g\<lparr>visited := (visited g)[v := True]\<rparr>"
  note inv = Suc.prems(1)
  from sortInv_fields [OF inv] have el: "edgeList g = el" and len: "length (visited g) = V"
    and dist: "distinct (s g)" and fin: "finished el (s g)"
    by simp_all
  from fw Suc.prems(2) have edges: "\<forall>e\<in>set (el ! v). v < vertexNum e \<and> vertexNum e < V"
    and lel: "length el = V"
    by (simp_all add: forward_def)
  have inv1: "sortInv el V (Suc v) ?g1"
  proof (rule sortInvI)
    fix w assume "w \<in> set (s ?g1)"
    then have "w < V \<and> visited g ! w" using sortInv_stack [OF inv, of w] by simp
    then show "w < V \<and> visited ?g1 ! w" using len by (cases "w = v") simp_all
  next
    fix w assume "Suc v \<le> w" "w < V" "visited ?g1 ! w"
    then have "v \<le> w" "visited g ! w" by simp_all
    with \<open>w < V\<close> show "w \<in> set (s ?g1)" using sortInv_visited [OF inv, of w] by simp
  qed (use el len dist fin in simp_all)
  have "V - Suc v \<le> fuel" using Suc.prems(4) by simp
  from visitEdges_sorts [of el V fuel, OF Suc.IH inv1 edges this] obtain g2 where
    g2: "visitEdges fuel (el ! v) ?g1 = Some g2" "sortInv el V (Suc v) g2"
      "sortStep (Suc v) ?g1 g2" "\<forall>e\<in>set (el ! v). vertexNum e \<in> set (s g2)"
    by blast
  let ?g' = "g2\<lparr>s := v # s g2\<rparr>"
  have call: "topologicalSortRecursive (Suc fuel) v g = Some ?g'"
    using g2(1) Suc.prems(2) el len lel by simp
  have same: "visited g2 ! w = visited ?g1 ! w" if "w \<le> v" for w
    using that by (intro sortStep_visited [OF g2(3)]) simp
  have vis: "visited g2 ! v"
    using same [of v] Suc.prems(2) len by simp
  have old: "visited g2 ! w = visited g ! w" if "w < v" for w
    using same [of w] that by simp
  have new: "w \<in> set (s g) \<or> Suc v \<le> w" if "w \<in> set (s g2)" for w
    using sortStep_new [OF g2(3) that] by simp
  have notin: "v \<notin> set (s g2)"
  proof
    assume "v \<in> set (s g2)"
    with new [of v] have "v \<in> set (s g)" by simp
    with sortInv_stack [OF inv, of v] Suc.prems(3) show False by simp
  qed
  from sortInv_fields [OF g2(2)] have f2: "edgeList g2 = el" "length (visited g2) = V"
    "distinct (s g2)" "finished el (s g2)" by simp_all
  have inv': "sortInv el V v ?g'"
  proof (rule sortInvI)
    fix w assume "w \<in> set (s ?g')"
    then consider "w = v" | "w \<in> set (s g2)" by auto
    then show "w < V \<and> visited ?g' ! w"
      using vis Suc.prems(2) sortInv_stack [OF g2(2), of w] by cases simp_all
  next
    fix w assume w: "v \<le> w" "w < V" "visited ?g' ! w"
    show "w \<in> set (s ?g')"
    proof (cases "w = v")
      case False
      with w have "w \<in> set (s g2)" by (intro sortInv_visited [OF g2(2)]) simp_all
      then show ?thesis by simp
    qed simp
  qed (use f2 notin g2(4) in simp_all)
  have step: "sortStep v g ?g'"
  proof (rule sortStepI)
    fix w assume "w \<in> set (s g)"
    then have "w \<in> set (s g2)" using sortStep_grows [OF g2(3), of w] by simp
    then show "w \<in> set (s ?g')" by simp
  next
    fix w assume "w \<in> set (s ?g')"
    then consider "w = v" | "w \<in> set (s g2)" by auto
    then show "w \<in> set (s g) \<or> v \<le> w" using new [of w] by cases auto
  qed (use old in simp)
  show ?case
    unfolding call using inv' step vis by (intro exI [of _ ?g']) simp
qed

lemma sortVertices_sorts:
  "sortInv el V 0 g \<Longrightarrow> i \<le> V \<Longrightarrow> \<forall>w<i. visited g ! w \<Longrightarrow> forward el V \<Longrightarrow>
      \<exists>g'. sortVertices V i g = Some g' \<and> sortInv el V 0 g' \<and> (\<forall>w<V. visited g' ! w)"
proof (induction V i g rule: sortVertices.induct)
  case (1 n i g)
  note inv = "1.prems"(1) and fw = "1.prems"(4)
  from sortInv_fields [OF inv] have len: "length (visited g) = n" by simp
  show ?case
  proof (cases "i < n")
    case False
    with "1.prems" have "i = n" by simp
    with "1.prems" show ?thesis by (subst sortVertices.simps) simp
  next
    case True
    show ?thesis
    proof (cases "visited g ! i")
      case vis: True
      have all: "\<forall>w<i + 1. visited g ! w"
        using "1.prems"(3) vis by (simp add: less_Suc_eq)
      have "\<exists>g'. sortVertices n (i + 1) g = Some g' \<and> sortInv el n 0 g' \<and> (\<forall>w<n. visited g' ! w)"
        using True len vis fw inv all by (intro "1.IH"(2)) simp_all
      then show ?thesis using True len vis by (subst sortVertices.simps) simp
    next
      case unvis: False
      have "sortInv el n i g" using inv by (rule sortInv_mono) simp
      then obtain g1 where g1: "topologicalSortRecursive n i g = Some g1"
        "sortInv el n i g1" "sortStep i g g1" "visited g1 ! i"
        using topologicalSortRecursive_sorts [OF fw, of i g n] True unvis by auto
      have inv1: "sortInv el n 0 g1" using inv g1(2,3) by (rule sortInv_below)
      have all: "\<forall>w<i + 1. visited g1 ! w"
      proof (intro allI impI)
        fix w assume "w < i + 1"
        then consider "w < i" | "w = i" by linarith
        then show "visited g1 ! w"
          using sortStep_visited [OF g1(3), of w] "1.prems"(3) g1(4) by cases simp_all
      qed
      have "\<exists>g'. sortVertices n (i + 1) g1 = Some g' \<and> sortInv el n 0 g' \<and> (\<forall>w<n. visited g' ! w)"
        using True len unvis g1(1) fw inv1 all by (intro "1.IH"(1)) simp_all
      then show ?thesis using True len unvis g1(1) by (subst sortVertices.simps) simp
    qed
  qed
qed

lemma finished_precedes:
  "finished el st \<Longrightarrow> distinct st \<Longrightarrow> u \<in> set st \<Longrightarrow> e \<in> set (el ! u) \<Longrightarrow>
   precedes u (vertexNum e) st"
  by (induction st) auto

lemma sortInv_initial:
  "sortInv el V 0 \<lparr>vertexAmount = n, edgeList = el, visited = replicate V False, s = []\<rparr>"
  by (rule sortInvI) simp_all

lemma sortVertices_forward:
  assumes "forward (edgeList g) (vertexAmount g)" "s g = []"
  shows "\<exists>g'. sortVertices (vertexAmount g) 0 (g\<lparr>visited := replicate (vertexAmount g) False\<rparr>) = Some g'
      \<and> edgeList g' = edgeList g \<and> distinct (s g') \<and> set (s g') = {0..<vertexAmount g}
      \<and> (\<forall>u<vertexAmount g. \<forall>e\<in>set (edgeList g ! u). precedes u (vertexNum e) (s g'))"
proof -
  let ?V = "vertexAmount g" and ?el = "edgeList g"
  let ?g0 = "g\<lparr>visited := replicate ?V False\<rparr>"
  have "sortInv ?el ?V 0 ?g0"
    using assms(2) by (intro sortInvI) simp_all
  then obtain g' where g': "sortVertices ?V 0 ?g0 = Some g'" "sortInv ?el ?V 0 g'"
    "\<forall>w<?V. visited g' ! w"
    using sortVertices_sorts [of ?el ?V ?g0 0] assms(1) by auto
  from sortInv_fields [OF g'(2)] have f: "edgeList g' = ?el" "distinct (s g')"
    "finished ?el (s g')" by simp_all
  have set: "set (s g') = {0..<?V}"
  proof (intro equalityI subsetI)
    fix w assume "w \<in> set (s g')"
    then show "w \<in> {0..<?V}" using sortInv_stack [OF g'(2), of w] by simp
  next
    fix w assume "w \<in> {0..<?V}"
    then show "w \<in> set (s g')" using g'(3) by (intro sortInv_visited [OF g'(2)]) simp_all
  qed
  have "precedes u (vertexNum e) (s g')" if "u < ?V" "e \<in> set (?el ! u)" for u e
    using f(3,2) _ that(2) by (rule finished_precedes) (use that(1) set in simp)
  with g'(1) f(1,2) set show ?thesis by blast
qed

section \<open>The relaxation and the printed sum\<close>

lemma relaxEdges_frame:
  "source < length sumv \<Longrightarrow> \<forall>e\<in>set es. vertexNum e < length sumv \<Longrightarrow>
   \<exists>sumv'. relaxEdges source es sumv = Some sumv' \<and> length sumv' = length sumv \<and>
     (\<forall>k. (\<forall>e\<in>set es. vertexNum e \<noteq> k) \<longrightarrow> sumv' ! k = sumv ! k)"
proof (induction es arbitrary: sumv)
  case Nil
  then show ?case by simp
next
  case (Cons e es)
  let ?new = "if sumv ! source + edgeWeight e <s sumv ! vertexNum e
              then sumv[vertexNum e := sumv ! source + edgeWeight e] else sumv"
  have len: "length ?new = length sumv" by simp
  from Cons.prems have "source < length ?new" "\<forall>e\<in>set es. vertexNum e < length ?new"
    by simp_all
  from Cons.IH [OF this] obtain sumv' where
    r: "relaxEdges source es ?new = Some sumv'" "length sumv' = length ?new"
      "\<forall>k. (\<forall>e\<in>set es. vertexNum e \<noteq> k) \<longrightarrow> sumv' ! k = ?new ! k"
    by blast
  have eq: "relaxEdges source (e # es) sumv = relaxEdges source es ?new"
    using Cons.prems by simp
  have "sumv' ! k = sumv ! k" if "\<forall>e\<in>set (e # es). vertexNum e \<noteq> k" for k
  proof -
    from that have "sumv' ! k = ?new ! k" using r(3) by simp
    also have "?new ! k = sumv ! k" using that by simp
    finally show ?thesis .
  qed
  with r(1,2) show ?case unfolding eq len by blast
qed

lemma relaxStack_frame:
  "length el = V \<Longrightarrow> \<forall>u<V. \<forall>e\<in>set (el ! u). vertexNum e < V \<Longrightarrow> length sumv = V \<Longrightarrow>
   \<forall>u\<in>set st. u < V \<Longrightarrow>
   \<exists>sumv'. relaxStack el st sumv = Some sumv' \<and> length sumv' = V \<and>
     (\<forall>k. (\<forall>u<V. \<forall>e\<in>set (el ! u). vertexNum e \<noteq> k) \<longrightarrow> sumv' ! k = sumv ! k)"
proof (induction st arbitrary: sumv)
  case Nil
  then show ?case by simp
next
  case (Cons u st)
  from Cons.prems have u: "u < V" and st: "\<forall>u\<in>set st. u < V" by simp_all
  show ?case
  proof (cases "sumv ! u = INT_MAX")
    case True
    then have eq: "relaxStack el (u # st) sumv = relaxStack el st sumv"
      using u Cons.prems(1,3) by simp
    show ?thesis unfolding eq using Cons.prems st by (intro Cons.IH)
  next
    case False
    have "u < length sumv" "\<forall>e\<in>set (el ! u). vertexNum e < length sumv"
      using u Cons.prems(2,3) by simp_all
    from relaxEdges_frame [OF this] obtain sumv1 where
      r: "relaxEdges u (el ! u) sumv = Some sumv1" "length sumv1 = length sumv"
        "\<forall>k. (\<forall>e\<in>set (el ! u). vertexNum e \<noteq> k) \<longrightarrow> sumv1 ! k = sumv ! k"
      by blast
    have eq: "relaxStack el (u # st) sumv = relaxStack el st sumv1"
      using u Cons.prems(1,3) False r(1) by simp
    have "length sumv1 = V" using r(2) Cons.prems(3) by simp
    from Cons.IH [OF Cons.prems(1,2) this st] obtain sumv' where
      r': "relaxStack el st sumv1 = Some sumv'" "length sumv' = V"
        "\<forall>k. (\<forall>u<V. \<forall>e\<in>set (el ! u). vertexNum e \<noteq> k) \<longrightarrow> sumv' ! k = sumv1 ! k"
      by blast
    have "sumv' ! k = sumv ! k" if "\<forall>u<V. \<forall>e\<in>set (el ! u). vertexNum e \<noteq> k" for k
      using r'(3) r(3) that u by simp
    with r'(1,2) show ?thesis unfolding eq by blast
  qed
qed

text \<open>
  A vertex that no edge enters and whose sum is \<^verbatim>\<open>INT_MAX\<close> is skipped when it is popped:
  the relaxation runs as if the vertex had no outgoing edge.
\<close>

lemma relaxStack_skips:
  assumes el: "length el = V" "\<forall>u<V. \<forall>e\<in>set (el ! u). vertexNum e < V \<and> vertexNum e \<noteq> w"
    and w: "w < V"
  shows "length sumv = V \<Longrightarrow> \<forall>u\<in>set st. u < V \<Longrightarrow> sumv ! w = INT_MAX \<Longrightarrow>
     relaxStack (el[w := []]) st sumv = relaxStack el st sumv"
proof (induction st arbitrary: sumv)
  case Nil
  show ?case by simp
next
  case (Cons u st)
  from Cons.prems have u: "u < V" and st: "\<forall>u\<in>set st. u < V" by simp_all
  show ?case
  proof (cases "sumv ! u = INT_MAX")
    case True
    have "relaxStack (el[w := []]) (u # st) sumv = relaxStack (el[w := []]) st sumv"
      "relaxStack el (u # st) sumv = relaxStack el st sumv"
      using True u el(1) Cons.prems(1) by simp_all
    with Cons.IH [OF Cons.prems(1) st Cons.prems(3)] show ?thesis by simp
  next
    case False
    with Cons.prems(3) have uw: "u \<noteq> w" by auto
    then have same: "(el[w := []]) ! u = el ! u" by simp
    have "u < length sumv" "\<forall>e\<in>set (el ! u). vertexNum e < length sumv"
      using u el(2) Cons.prems(1) by simp_all
    from relaxEdges_frame [OF this] obtain sumv1 where
      r: "relaxEdges u (el ! u) sumv = Some sumv1" "length sumv1 = length sumv"
        "\<forall>k. (\<forall>e\<in>set (el ! u). vertexNum e \<noteq> k) \<longrightarrow> sumv1 ! k = sumv ! k"
      by blast
    have "\<forall>e\<in>set (el ! u). vertexNum e \<noteq> w" using el(2) u by blast
    with r(3) Cons.prems(3) have keep: "sumv1 ! w = INT_MAX" by simp
    have len: "length sumv1 = V" using r(2) Cons.prems(1) by simp
    have "relaxStack (el[w := []]) (u # st) sumv = relaxStack (el[w := []]) st sumv1"
      "relaxStack el (u # st) sumv = relaxStack el st sumv1"
      using False u el(1) Cons.prems(1) r(1) same by simp_all
    with Cons.IH [OF len st keep] show ?thesis by simp
  qed
qed

lemma relaxStack_no_source_edges:
  "el ! 0 = [] \<Longrightarrow> 0 < V \<Longrightarrow> length el = V \<Longrightarrow> \<forall>u\<in>set st. u < V \<Longrightarrow>
   relaxStack el st ((replicate V INT_MAX)[0 := 0]) = Some ((replicate V INT_MAX)[0 := 0])"
proof (induction st)
  case Nil
  then show ?case by simp
next
  case (Cons u st)
  then show ?case by (cases "u = 0") (simp_all add: INT_MAX_def)
qed

lemma printSum_finds:
  "i < n \<Longrightarrow> sumv ! i \<noteq> INT_MAX \<Longrightarrow> \<exists>x. printSum sumv n = Maximum_Sum x"
  by (induction n) (auto simp: less_Suc_eq)

lemma printSum_first:
  "0 < n \<Longrightarrow> sumv ! 0 \<noteq> INT_MAX \<Longrightarrow> \<forall>k. 0 < k \<and> k < n \<longrightarrow> sumv ! k = INT_MAX \<Longrightarrow>
   printSum sumv n = Maximum_Sum (- (sumv ! 0))"
proof (induction n)
  case 0
  then show ?case by simp
next
  case (Suc n)
  then show ?case by (cases "n = 0") simp_all
qed

section \<open>The graph of a well-formed input\<close>

lemma pyramidGraph_fields:
  "vertexAmount (pyramidGraph rows) = triangle (length rows) + 2"
  "length (edgeList (pyramidGraph rows)) = triangle (length rows) + 2"
  "s (pyramidGraph rows) = []"
  by (simp_all add: pyramidGraph_def new_DAG_def length_applyCalls)

lemma pyramidGraph_edges:
  "u < triangle (length rows) + 2 \<Longrightarrow>
   edgeList (pyramidGraph rows) ! u = map callEdge (filter (\<lambda>c. fst c = u) (pyramidCalls rows))"
proof -
  assume u: "u < triangle (length rows) + 2"
  let ?el = "replicate (triangle (length rows) + 2) ([] :: Edge list)"
  have "applyCalls (pyramidCalls rows) ?el ! u =
      ?el ! u @ map callEdge (filter (\<lambda>c. fst c = u) (pyramidCalls rows))"
    using u by (intro applyCalls_nth) (simp only: length_replicate)
  moreover have "?el ! u = []" using u by (simp only: nth_replicate)
  ultimately show ?thesis by (simp add: pyramidGraph_def)
qed

lemma pyramidGraph_forward:
  assumes "pyramid rows"
  shows "forward (edgeList (pyramidGraph rows)) (vertexAmount (pyramidGraph rows))"
  unfolding forward_def pyramidGraph_fields
proof (intro conjI allI impI ballI)
  fix u e assume u: "u < triangle (length rows) + 2"
    and "e \<in> set (edgeList (pyramidGraph rows) ! u)"
  then obtain c where c: "c \<in> set (pyramidCalls rows)" "fst c = u" "e = callEdge c"
    by (auto simp: pyramidGraph_edges)
  from pyramidCalls_range [OF assms c(1)] c(2,3)
  show "u < vertexNum e" "vertexNum e < triangle (length rows) + 2"
    by (simp_all add: callEdge_def)
qed simp

lemma precedes_nth:
  "precedes x y xs \<Longrightarrow> \<exists>i j. i < j \<and> j < length xs \<and> xs ! i = x \<and> xs ! j = y"
proof (induction xs)
  case Nil
  then show ?case by simp
next
  case (Cons z zs)
  show ?case
  proof (cases "z = x")
    case True
    with Cons.prems have "y \<in> set zs" by simp
    then obtain k where "k < length zs" "zs ! k = y" by (auto simp: in_set_conv_nth)
    with True have "0 < Suc k \<and> Suc k < length (z # zs) \<and> (z # zs) ! 0 = x \<and> (z # zs) ! Suc k = y"
      by simp
    then show ?thesis by blast
  next
    case False
    with Cons obtain i j where "i < j" "j < length zs" "zs ! i = x" "zs ! j = y" by auto
    then have "Suc i < Suc j \<and> Suc j < length (z # zs) \<and> (z # zs) ! Suc i = x \<and> (z # zs) ! Suc j = y"
      by simp
    then show ?thesis by blast
  qed
qed

lemma maximumSum_pyramidGraph:
  assumes "pyramid rows"
  shows "\<exists>x. maximumSum (pyramidGraph rows) = Some (Maximum_Sum x) \<and>
     (edgeList (pyramidGraph rows) ! 0 = [] \<longrightarrow> x = 0)"
proof -
  let ?g = "pyramidGraph rows"
  let ?V = "vertexAmount ?g"
  let ?init = "(replicate ?V INT_MAX)[0 := 0]"
  have fw: "forward (edgeList ?g) ?V" by (rule pyramidGraph_forward [OF assms])
  have V: "0 < ?V" by (simp add: pyramidGraph_fields)
  from sortVertices_forward [OF fw pyramidGraph_fields(3)]
  obtain g' where g': "sortVertices ?V 0 (?g\<lparr>visited := replicate ?V False\<rparr>) = Some g'"
    "edgeList g' = edgeList ?g" "set (s g') = {0..<?V}"
    by blast
  have init: "initSum ?V = Some ?init" using V by (simp add: initSum_def)
  have el: "length (edgeList ?g) = ?V" "\<forall>u<?V. \<forall>e\<in>set (edgeList ?g ! u). vertexNum e < ?V"
    using fw by (simp_all add: forward_def)
  have st: "\<forall>u\<in>set (s g'). u < ?V" using g'(3) by simp
  from relaxStack_frame [OF el _ st, of ?init] obtain sumv' where
    r: "relaxStack (edgeList ?g) (s g') ?init = Some sumv'" "length sumv' = ?V"
      "\<forall>k. (\<forall>u<?V. \<forall>e\<in>set (edgeList ?g ! u). vertexNum e \<noteq> k) \<longrightarrow> sumv' ! k = ?init ! k"
    by auto
  have run: "maximumSum ?g = Some (printSum sumv' ?V)"
    by (simp add: maximumSum_def g'(1,2) init r(1))
  have "\<forall>u<?V. \<forall>e\<in>set (edgeList ?g ! u). vertexNum e \<noteq> 0"
    using fw by (fastforce simp: forward_def)
  with r(3) have "sumv' ! 0 = ?init ! 0" by blast
  then have zero: "sumv' ! 0 = 0" using V by simp
  then have "sumv' ! 0 \<noteq> INT_MAX" by (simp add: INT_MAX_def)
  from printSum_finds [OF V this] obtain x where x: "printSum sumv' ?V = Maximum_Sum x" by blast
  have "x = 0" if "edgeList ?g ! 0 = []"
  proof -
    from relaxStack_no_source_edges [OF that V el(1) st] r(1) have "sumv' = ?init" by simp
    then have rest: "\<forall>k. 0 < k \<and> k < ?V \<longrightarrow> sumv' ! k = INT_MAX" by simp
    from printSum_first [OF V \<open>sumv' ! 0 \<noteq> INT_MAX\<close> rest] x zero
    show ?thesis by simp
  qed
  with run x show ?thesis by simp
qed


section \<open>The edges of a cell\<close>

lemma parentCalls_dest:
  "filter (\<lambda>c. fst (snd c) = w) (parentCalls i j index v) =
     (if w = index then parentCalls i j index v else [])"
  by (auto simp: parentCalls_def)

lemma cellCalls_dest:
  assumes "i = N \<longrightarrow> w < index + i - j"
  shows "filter (\<lambda>c. fst (snd c) = w) (cellCalls N i j index v) =
     (if w = index \<and> \<not> forbidden v then parentCalls i j index v else [])"
  using assms by (auto simp: cellCalls_def parentCalls_dest)

lemma rowCalls_dest:
  "(i = N \<longrightarrow> w < index + i - j) \<Longrightarrow> j + length vs \<le> i \<Longrightarrow>
   filter (\<lambda>c. fst (snd c) = w) (rowCalls N i j index vs) =
     (if index \<le> w \<and> w < index + length vs \<and> \<not> forbidden (vs ! (w - index))
      then parentCalls i (j + (w - index)) w (vs ! (w - index)) else [])"
proof (induction vs arbitrary: j index)
  case Nil
  then show ?case by auto
next
  case (Cons v vs)
  have sink: "i = N \<longrightarrow> w < Suc index + i - Suc j" using Cons.prems by simp
  have len: "Suc j + length vs \<le> i" using Cons.prems by simp
  note IH = Cons.IH [OF sink len]
  note first = cellCalls_dest [OF Cons.prems(1), of v]
  consider "w < index" | "w = index" | "index < w" by linarith
  then show ?case
  proof cases
    case 1
    with IH first show ?thesis by simp
  next
    case 2
    with IH first show ?thesis by simp
  next
    case 3
    then obtain d where d: "w = Suc index + d" by (metis less_iff_Suc_add add_Suc)
    with IH first show ?thesis by simp
  qed
qed

lemma rowsCalls_dest:
  "pyramid_from i rws \<Longrightarrow> i + length rws = N + 1 \<Longrightarrow> 2 \<le> i \<Longrightarrow> i \<le> index \<Longrightarrow>
   r < length rws \<Longrightarrow> j < i + r \<Longrightarrow>
   filter (\<lambda>c. fst (snd c) = index + length (concat (take r rws)) + j) (rowsCalls N i index rws) =
     (if forbidden (rws ! r ! j) then []
      else parentCalls (i + r) j (index + length (concat (take r rws)) + j) (rws ! r ! j))"
proof (induction rws arbitrary: i index r)
  case Nil
  then show ?case by simp
next
  case (Cons row rest)
  then have row: "length row = i" and rest: "pyramid_from (Suc i) rest" by simp_all
  show ?case
  proof (cases r)
    case 0
    let ?w = "index + j"
    have j: "j < i" using Cons.prems 0 by simp
    have "filter (\<lambda>c. fst (snd c) = ?w) (rowCalls N i 0 index row) =
      (if index \<le> ?w \<and> ?w < index + length row \<and> \<not> forbidden (row ! (?w - index))
       then parentCalls i (0 + (?w - index)) ?w (row ! (?w - index)) else [])"
      using j row by (intro rowCalls_dest) simp_all
    moreover have "filter (\<lambda>c. fst (snd c) = ?w) (rowsCalls N (Suc i) (index + length row) rest) = []"
    proof -
      have "fst (snd c) \<noteq> ?w" if "c \<in> set (rowsCalls N (Suc i) (index + length row) rest)" for c
      proof -
        have "2 \<le> Suc i" "Suc i \<le> index + length row" using Cons.prems row by simp_all
        from rowsCalls_range [OF that rest this] j row show ?thesis by simp
      qed
      then show ?thesis by (auto simp: filter_empty_conv)
    qed
    ultimately show ?thesis using 0 j row by simp
  next
    case (Suc r')
    let ?w = "index + length row + length (concat (take r' rest)) + j"
    have r': "r' < length rest" using Cons.prems Suc by simp
    then have iN: "i \<noteq> N" using Cons.prems(2) by (cases rest) auto
    have "filter (\<lambda>c. fst (snd c) = ?w) (rowCalls N i 0 index row) =
      (if index \<le> ?w \<and> ?w < index + length row \<and> \<not> forbidden (row ! (?w - index))
       then parentCalls i (0 + (?w - index)) ?w (row ! (?w - index)) else [])"
      using iN row by (intro rowCalls_dest) simp_all
    then have first: "filter (\<lambda>c. fst (snd c) = ?w) (rowCalls N i 0 index row) = []"
      by simp
    have "filter (\<lambda>c. fst (snd c) = index + length row + length (concat (take r' rest)) + j)
        (rowsCalls N (Suc i) (index + length row) rest) =
      (if forbidden (rest ! r' ! j) then []
       else parentCalls (Suc i + r') j (index + length row + length (concat (take r' rest)) + j)
              (rest ! r' ! j))"
      using Cons.prems rest r' Suc row by (intro Cons.IH) simp_all
    with first Suc show ?thesis by (simp add: add.assoc)
  qed
qed

lemma pyramid_from_take: "pyramid_from i rws \<Longrightarrow> pyramid_from i (take r rws)"
proof (induction rws arbitrary: i r)
  case Nil
  then show ?case by simp
next
  case (Cons row rest)
  then show ?case by (cases r) simp_all
qed

lemma level_start:
  assumes "pyramid_from 2 rs" "r \<le> length rs"
  shows "2 + length (concat (take r rs)) = cell (r + 2) 0"
proof -
  have "triangle (2 - 1) + length (concat (take r rs)) = triangle (2 + length (take r rs) - 1)"
    by (rule pyramid_from_length_concat [OF pyramid_from_take [OF assms(1)]])
  with assms(2) show ?thesis by (simp add: cell_def min_def)
qed

lemma cell_plus: "cell i j = cell i 0 + j"
  by (simp add: cell_def)

lemma pyramidCalls_dest:
  assumes "pyramid rows" "2 \<le> i" "i \<le> length rows" "j < i"
  shows "filter (\<lambda>c. fst (snd c) = cell i j) (pyramidCalls rows) =
     (if forbidden (hd (hd rows)) \<or> forbidden (rows ! (i - 1) ! j) then []
      else parentCalls i j (cell i j) (rows ! (i - 1) ! j))"
proof -
  from assms(1) obtain a rs where rows: "rows = [a] # rs" and rs: "pyramid_from 2 rs"
    and len: "Suc (length (concat rs)) = triangle (length rows)"
    by (rule pyramid_cases)
  obtain r where r: "i = 2 + r" using assms(2) by (metis le_Suc_ex)
  have r_len: "r < length rs" using assms(3) by (simp add: rows r)
  have start: "2 + length (concat (take r rs)) = cell i 0"
    using level_start [OF rs, of r] r_len by (simp add: r add.commute)
  have "filter (\<lambda>c. fst (snd c) = 2 + length (concat (take r rs)) + j)
      (rowsCalls (length rows) 2 2 rs) =
     (if forbidden (rs ! r ! j) then []
      else parentCalls (2 + r) j (2 + length (concat (take r rs)) + j) (rs ! r ! j))"
    using rs r_len assms(4) by (intro rowsCalls_dest) (simp_all add: rows r)
  then have deep: "filter (\<lambda>c. fst (snd c) = cell i j) (rowsCalls (length rows) 2 2 rs) =
     (if forbidden (rows ! (i - 1) ! j) then []
      else parentCalls i j (cell i j) (rows ! (i - 1) ! j))"
    unfolding start cell_plus [of i j, symmetric] by (simp add: rows r)
  have "cell i j \<noteq> 1" using start cell_plus [of i j] by simp
  with deep show ?thesis by (simp add: pyramidCalls_def rows)
qed

lemma pyramidCalls_dest_apex:
  assumes "pyramid rows"
  shows "filter (\<lambda>c. fst (snd c) = cell 1 0) (pyramidCalls rows) =
     (if forbidden (hd (hd rows)) then [] else [(0, 1, hd (hd rows))])"
proof -
  from assms(1) obtain a rs where rows: "rows = [a] # rs" and rs: "pyramid_from 2 rs"
    and len: "Suc (length (concat rs)) = triangle (length rows)"
    by (rule pyramid_cases)
  have "fst (snd c) \<noteq> 1" if "c \<in> set (rowsCalls (length rows) 2 2 rs)" for c
    using rowsCalls_range [OF that rs] by simp
  then have "filter (\<lambda>c. fst (snd c) = 1) (rowsCalls (length rows) 2 2 rs) = []"
    by (auto simp: filter_empty_conv)
  then show ?thesis by (simp add: pyramidCalls_def rows cell_def)
qed

lemma incoming_pyramidGraph:
  "incoming (pyramidGraph rows) w =
     concat (map (\<lambda>u. map (\<lambda>c. (u, - snd (snd c)))
                          (filter (\<lambda>c. fst c = u)
                             (filter (\<lambda>c. fst (snd c) = w) (pyramidCalls rows))))
                 [0..<triangle (length rows) + 2])"
proof -
  have "map (\<lambda>e. (u, edgeWeight e)) (filter (\<lambda>e. vertexNum e = w) (edgeList (pyramidGraph rows) ! u)) =
      map (\<lambda>c. (u, - snd (snd c)))
        (filter (\<lambda>c. fst c = u) (filter (\<lambda>c. fst (snd c) = w) (pyramidCalls rows)))"
    if "u \<in> set [0..<triangle (length rows) + 2]" for u
  proof -
    from that have "u < triangle (length rows) + 2"
      by (simp only: set_upt atLeastLessThan_iff)
    then show ?thesis
      by (simp add: pyramidGraph_edges filter_map comp_def callEdge_def conj_commute)
  qed
  then show ?thesis
    unfolding incoming_def pyramidGraph_fields by (intro arg_cong [of _ _ concat] map_cong refl)
qed


lemma concat_none: "concat (map (\<lambda>u. []) xs) = []"
  by (induction xs) simp_all


lemma cell_bounds:
  assumes "1 \<le> i" "i \<le> N" "j < i"
  shows "0 < cell i j" "cell i j \<le> triangle N"
proof -
  obtain i' where i': "i = Suc i'" using assms(1) by (cases i) simp_all
  have "cell i j \<le> triangle i" using assms(3) by (simp add: cell_def i')
  also have "\<dots> \<le> triangle N" by (rule triangle_mono [OF assms(2)])
  finally show "cell i j \<le> triangle N" .
  show "0 < cell i j" by (simp add: cell_def)
qed





lemma forbidden_cell_no_calls:
  assumes "pyramid rows" "1 \<le> i" "i \<le> length rows" "j < i" "forbidden (rows ! (i - 1) ! j)"
  shows "filter (\<lambda>c. fst (snd c) = cell i j) (pyramidCalls rows) = []"
proof (cases "i = 1")
  case True
  with assms(4) have j: "j = 0" by simp
  from assms(1) obtain a rs where "rows = [a] # rs" by (rule pyramid_cases)
  with assms(5) True j have "forbidden (hd (hd rows))" by simp
  with pyramidCalls_dest_apex [OF assms(1)] True j show ?thesis by simp
next
  case False
  with assms(2) have "2 \<le> i" by simp
  from pyramidCalls_dest [OF assms(1) this assms(3,4)] assms(5) show ?thesis by simp
qed






section \<open>\<^verbatim>\<open>isPrime\<close> and the prime numbers\<close>

subsection \<open>Trial division by the candidates \<open>6k - 1\<close> and \<open>6k + 1\<close>\<close>

lemma small_divisor:
  assumes "1 < d" "d < n" "d dvd (n :: int)"
  shows "\<exists>e. 1 < e \<and> e * e \<le> n \<and> e dvd n"
proof -
  from assms(3) obtain q where q: "n = d * q" by (auto simp: dvd_def)
  have qpos: "0 < q" using assms(1,2) q by (metis less_trans mult_pos_pos zero_less_mult_pos zero_less_one)
  have q1: "1 < q"
  proof (rule ccontr)
    assume "\<not> 1 < q"
    with qpos have "q = 1" by simp
    with q assms(2) show False by simp
  qed
  show ?thesis
  proof (cases "d \<le> q")
    case True
    then have "d * d \<le> d * q" using assms(1) by (simp add: mult_left_mono)
    with assms(1,3) q show ?thesis by auto
  next
    case False
    then have "q * q \<le> d * q" using qpos by (simp add: mult_right_mono)
    moreover have "q dvd n" by (simp add: q)
    ultimately show ?thesis using q1 q by auto
  qed
qed

lemma candidates_suffice:
  assumes n: "3 < (n :: int)" and two: "\<not> 2 dvd n" and three: "\<not> 3 dvd n"
    and cand: "\<forall>k\<ge>0. (5 + 6 * k) * (5 + 6 * k) \<le> n \<longrightarrow>
        \<not> (5 + 6 * k) dvd n \<and> \<not> (5 + 6 * k + 2) dvd n"
  shows "prime_number n"
  unfolding prime_number_def
proof (intro conjI allI impI)
  show "1 < n" using n by simp
next
  fix d assume d: "1 < d \<and> d < n"
  show "\<not> d dvd n"
  proof
    assume "d dvd n"
    with d obtain e where e: "1 < e" "e * e \<le> n" "e dvd n"
      using small_divisor [of d n] by blast
    have "\<not> 2 dvd e" using two e(3) by (meson dvd_trans)
    moreover have "\<not> 3 dvd e" using three e(3) by (meson dvd_trans)
    ultimately have "e mod 6 = 1 \<or> e mod 6 = 5" by presburger
    then show False
    proof
      assume m: "e mod 6 = 5"
      define k where "k = e div 6"
      have k: "0 \<le> k" "e = 5 + 6 * k"
        using e(1) m mult_div_mod_eq [of 6 e] by (simp_all add: k_def pos_imp_zdiv_nonneg_iff)
      with cand e(2,3) show False by blast
    next
      assume m: "e mod 6 = 1"
      define k where "k = e div 6 - 1"
      have "e \<noteq> 1" using e(1) by simp
      with m e(1) have "6 \<le> e" by presburger
      then have "1 \<le> e div 6" by simp
      then have k: "0 \<le> k" "e = 5 + 6 * k + 2"
        using m mult_div_mod_eq [of 6 e] by (simp_all add: k_def)
      have "(5 + 6 * k) * (5 + 6 * k) \<le> e * e"
        using k by (simp add: mult_mono)
      with cand e(2,3) k show False by (metis order_trans)
    qed
  qed
qed

lemma no_div_candidates:
  "no_div n i j \<Longrightarrow> i + 6 * int k < j \<Longrightarrow>
   n mod (i + 6 * int k) \<noteq> 0 \<and> n mod (i + 6 * int k + 2) \<noteq> 0"
proof (induction k arbitrary: i)
  case 0
  then show ?case by (subst (asm) no_div.simps) (simp split: if_splits)
next
  case (Suc k)
  from Suc.prems have "i < j" by simp
  with Suc.prems(1) have "no_div n (i + 6) j"
    by (subst (asm) no_div.simps) simp
  from Suc.IH [OF this] Suc.prems(2) show ?case by (simp add: algebra_simps)
qed

lemma no_div_append:
  "no_div n i (i + 6 * int k) \<Longrightarrow> no_div n (i + 6 * int k) j \<Longrightarrow> no_div n i j"
proof (induction k arbitrary: i)
  case 0
  then show ?case by simp
next
  case (Suc k)
  have less: "i < i + 6 * int (Suc k)" by simp
  from Suc.prems(1) less have first: "n mod i \<noteq> 0 \<and> n mod (i + 2) \<noteq> 0"
    and rest: "no_div n (i + 6) (i + 6 * int (Suc k))"
    by (subst (asm) no_div.simps, simp)+
  have "no_div n (i + 6) (i + 6 + 6 * int k)" "no_div n (i + 6 + 6 * int k) j"
    using rest Suc.prems(2) by (simp_all add: algebra_simps)
  then have "no_div n (i + 6) j" by (rule Suc.IH)
  with first show ?case by (subst no_div.simps) simp
qed

subsection \<open>The loop while \<^verbatim>\<open>i * i\<close> does not overflow\<close>

lemma sint_word_of_int:
  "- 2147483648 \<le> i \<Longrightarrow> i < 2147483648 \<Longrightarrow> sint (word_of_int i :: int32) = i"
proof -
  assume a: "- 2147483648 \<le> i" "i < 2147483648"
  have "sint (word_of_int i :: int32) = (i + 2147483648) mod 4294967296 - 2147483648"
    using int_word_sint [where ?'a = 32, of i] by simp
  also have "(i + 2147483648) mod 4294967296 = i + 2147483648"
    using a by (intro mod_pos_pos_trivial) simp_all
  finally show ?thesis by simp
qed

lemma c_rem_dvd:
  assumes "0 < sint a" "0 < sint b"
  shows "c_rem a b = 0 \<longleftrightarrow> sint b dvd sint a"
proof -
  let ?r = "sint a mod sint b"
  have smod: "sint a smod sint b = ?r"
    using assms by (simp add: signed_modulo_int_def)
  have r: "0 \<le> ?r" "?r < sint b" using assms by simp_all
  have "sint b < 2147483648" using sint_lt [of b] by simp
  with r have "sint (word_of_int ?r :: int32) = ?r" by (intro sint_word_of_int) simp_all
  then have "(word_of_int ?r :: int32) = 0 \<longleftrightarrow> ?r = 0"
    by (metis sint_0 word_of_int_0)
  then show ?thesis by (simp add: c_rem_def smod dvd_eq_mod_eq_0)
qed

lemma all_candidates_step:
  "(\<forall>m :: nat. P (i + 6 * int m)) \<longleftrightarrow> P i \<and> (\<forall>m :: nat. P (i + 6 + 6 * int m))"
proof
  assume a: "\<forall>m :: nat. P (i + 6 * int m)"
  have "P (i + 6 + 6 * int m)" for m using a [rule_format, of "Suc m"] by (simp add: algebra_simps)
  with a [rule_format, of 0] show "P i \<and> (\<forall>m :: nat. P (i + 6 + 6 * int m))" by simp
next
  assume a: "P i \<and> (\<forall>m :: nat. P (i + 6 + 6 * int m))"
  show "\<forall>m :: nat. P (i + 6 * int m)"
  proof
    fix m show "P (i + 6 * int m)"
    proof (cases m)
      case 0
      with a show ?thesis by simp
    next
      case (Suc m')
      with a have "P (i + 6 + 6 * int m')" by blast
      with Suc show ?thesis by (simp add: algebra_simps)
    qed
  qed
qed

lemma isPrime_loop_below_overflow:
  assumes n: "3 < sint num" "sint num < 2147117569"
  shows "k \<le> 7722 \<Longrightarrow>
     isPrime_loop num (word_of_int (5 + 6 * int k)) =
       Some (\<forall>m :: nat. (5 + 6 * int k + 6 * int m) * (5 + 6 * int k + 6 * int m) \<le> sint num \<longrightarrow>
               \<not> (5 + 6 * int k + 6 * int m) dvd sint num \<and>
               \<not> (5 + 6 * int k + 6 * int m + 2) dvd sint num)"
proof (induction "7722 - k" arbitrary: k)
  case 0
  then have k: "k = 7722" by simp
  let ?i = "5 + 6 * int k"
  have i: "?i = 46337" by (simp add: k)
  have big: "sint num < (?i + 6 * int m) * (?i + 6 * int m)" for m
  proof -
    have "46337 * 46337 \<le> (?i + 6 * int m) * (?i + 6 * int m)"
      unfolding i by (intro mult_mono) simp_all
    with n(2) show ?thesis by simp
  qed
  have sq: "sint (word_of_int ?i * word_of_int ?i :: int32) = 2147117569"
    unfolding i by simp
  have "\<not> (word_of_int ?i * word_of_int ?i :: int32) \<le>s num"
    unfolding word_sle_eq sq using n(2) by simp
  then have "isPrime_loop num (word_of_int ?i) = Some True"
    by (subst isPrime_loop.simps) simp
  moreover have "\<forall>m :: nat. (?i + 6 * int m) * (?i + 6 * int m) \<le> sint num \<longrightarrow>
               \<not> (?i + 6 * int m) dvd sint num \<and> \<not> (?i + 6 * int m + 2) dvd sint num"
    using big by (simp add: not_le [symmetric] del: not_le)
  ultimately show ?case by simp
next
  case (Suc d)
  then have k: "k < 7722" by simp
  let ?i = "5 + 6 * int k"
  let ?P = "\<lambda>j :: int. j * j \<le> sint num \<longrightarrow> \<not> j dvd sint num \<and> \<not> (j + 2) dvd sint num"
  have i: "5 \<le> ?i" "?i \<le> 46331" using k by simp_all
  have isq: "?i * ?i \<le> 46331 * 46331" using i by (intro mult_mono) simp_all
  have si: "sint (word_of_int ?i :: int32) = ?i" using i by (intro sint_word_of_int) simp_all
  have si2: "sint (word_of_int ?i + 2 :: int32) = ?i + 2"
  proof -
    have "(word_of_int ?i + 2 :: int32) = word_of_int (?i + 2)" by simp
    then show ?thesis using i by (simp only: sint_word_of_int)
  qed
  have sq: "sint (word_of_int ?i * word_of_int ?i :: int32) = ?i * ?i"
  proof -
    have "(word_of_int ?i * word_of_int ?i :: int32) = word_of_int (?i * ?i)" by simp
    moreover have "- 2147483648 \<le> ?i * ?i" "?i * ?i < 2147483648"
      using zero_le_square [of ?i] isq by linarith+
    then have "sint (word_of_int (?i * ?i) :: int32) = ?i * ?i"
      by (rule sint_word_of_int)
    ultimately show ?thesis by simp
  qed
  have cond: "(word_of_int ?i * word_of_int ?i :: int32) \<le>s num \<longleftrightarrow> ?i * ?i \<le> sint num"
    by (simp only: word_sle_eq sq)
  have pos_n: "0 < sint num" using n(1) by simp
  have pos_i: "0 < sint (word_of_int ?i :: int32)" "0 < sint (word_of_int ?i + 2 :: int32)"
    unfolding si si2 using i by simp_all
  have d1: "c_rem num (word_of_int ?i) = 0 \<longleftrightarrow> ?i dvd sint num"
    by (rule c_rem_dvd [OF pos_n pos_i(1), unfolded si])
  have d2: "c_rem num (word_of_int ?i + 2) = 0 \<longleftrightarrow> (?i + 2) dvd sint num"
    by (rule c_rem_dvd [OF pos_n pos_i(2), unfolded si2])
  have next_i: "(word_of_int ?i + 6 :: int32) = word_of_int (5 + 6 * int (Suc k))"
    by simp
  have IH: "isPrime_loop num (word_of_int ?i + 6) =
      Some (\<forall>m :: nat. ?P (?i + 6 + 6 * int m))"
    unfolding next_i using Suc.hyps(1) [of "Suc k"] Suc.hyps(2) k
    by (simp add: algebra_simps)
  have split: "(\<forall>m :: nat. ?P (?i + 6 * int m)) \<longleftrightarrow> ?P ?i \<and> (\<forall>m :: nat. ?P (?i + 6 + 6 * int m))"
    by (rule all_candidates_step)
  have goal: "isPrime_loop num (word_of_int ?i) = Some (\<forall>m :: nat. ?P (?i + 6 * int m))"
  proof (cases "?i * ?i \<le> sint num")
    case False
    have "\<not> (?i + 6 * int m) * (?i + 6 * int m) \<le> sint num" for m
    proof -
      have "?i * ?i \<le> (?i + 6 * int m) * (?i + 6 * int m)"
        using i by (intro mult_mono) simp_all
      with False show ?thesis by simp
    qed
    then have "\<forall>m :: nat. ?P (?i + 6 * int m)" by blast
    moreover have "isPrime_loop num (word_of_int ?i) = Some True"
      using False cond by (subst isPrime_loop.simps) simp
    ultimately show ?thesis by simp
  next
    case True
    show ?thesis
    proof (cases "?i dvd sint num \<or> (?i + 2) dvd sint num")
      case div: True
      then have "isPrime_loop num (word_of_int ?i) = Some False"
        using True cond d1 d2 by (subst isPrime_loop.simps) simp
      moreover have "\<not> (\<forall>m :: nat. ?P (?i + 6 * int m))"
        unfolding split using True div by blast
      ultimately show ?thesis by simp
    next
      case nodiv: False
      then have "isPrime_loop num (word_of_int ?i) = isPrime_loop num (word_of_int ?i + 6)"
        using True cond d1 d2 by (subst isPrime_loop.simps) simp
      moreover have "(\<forall>m :: nat. ?P (?i + 6 * int m)) \<longleftrightarrow> (\<forall>m :: nat. ?P (?i + 6 + 6 * int m))"
        unfolding split using nodiv by blast
      ultimately show ?thesis using IH by simp
    qed
  qed
  then show ?case by (simp add: algebra_simps)
qed

lemma prime_number_candidates:
  assumes "prime_number n" "0 \<le> k" "(5 + 6 * k) * (5 + 6 * k) \<le> n"
  shows "\<not> (5 + 6 * k) dvd n \<and> \<not> (5 + 6 * k + 2) dvd n"
proof -
  let ?i = "5 + 6 * k"
  have i: "5 \<le> ?i" using assms(2) by simp
  then have "?i * 5 \<le> ?i * ?i" by (intro mult_left_mono) simp_all
  with assms(3) have "?i * 5 \<le> n" by simp
  with i have "1 < ?i" "?i < n" "1 < ?i + 2" "?i + 2 < n" by simp_all
  with assms(1) show ?thesis by (simp add: prime_number_def)
qed

lemma sint_small [simp]: "sint (2 :: int32) = 2" "sint (3 :: int32) = 3" "sint (1 :: int32) = 1"
  by simp_all

lemma isPrime_first_cases:
  "(sint num \<le> 1 \<longrightarrow> isPrime num = Some False) \<and>
   (sint num = 2 \<or> sint num = 3 \<longrightarrow> isPrime num = Some True) \<and>
   (3 < sint num \<and> (2 dvd sint num \<or> 3 dvd sint num) \<longrightarrow> isPrime num = Some False)"
proof -
  have "c_rem num 2 = 0 \<longleftrightarrow> 2 dvd sint num" "c_rem num 3 = 0 \<longleftrightarrow> 3 dvd sint num"
    if "3 < sint num"
    using that c_rem_dvd [of num 2] c_rem_dvd [of num 3] by simp_all
  then show ?thesis by (auto simp: isPrime_def word_sle_eq)
qed

text \<open>
  Below \<open>46337\<^sup>2 = 2147117569\<close> the product \<^verbatim>\<open>i * i\<close> never overflows, and \<^verbatim>\<open>isPrime\<close> returns
  true exactly for the prime numbers.
\<close>

lemma isPrime_below:
  assumes "sint num < 2147117569"
  shows "isPrime num = Some (prime_number (sint num))"
proof -
  let ?n = "sint num"
  note first = isPrime_first_cases [of num]
  consider "?n \<le> 1" | "?n = 2 \<or> ?n = 3" | "3 < ?n" "2 dvd ?n \<or> 3 dvd ?n"
    | "3 < ?n" "\<not> 2 dvd ?n" "\<not> 3 dvd ?n" by linarith
  then show ?thesis
  proof cases
    case 1
    then have "\<not> prime_number ?n" by (simp add: prime_number_def)
    with 1 first show ?thesis by simp
  next
    case 2
    have "1 < d \<and> d < 3 \<longrightarrow> \<not> d dvd 3" for d :: int
    proof
      assume "1 < d \<and> d < 3"
      then have "d = 2" by simp
      then show "\<not> d dvd 3" by simp
    qed
    then have "prime_number 3" by (simp add: prime_number_def)
    moreover have "prime_number 2" by (auto simp: prime_number_def)
    ultimately have "prime_number ?n" using 2 by auto
    with 2 first show ?thesis by simp
  next
    case 3
    from 3(2) have "\<not> prime_number ?n"
    proof
      assume "2 dvd ?n"
      with 3(1) have "1 < (2::int) \<and> 2 < ?n \<and> 2 dvd ?n" by simp
      then show ?thesis unfolding prime_number_def by blast
    next
      assume "3 dvd ?n"
      with 3(1) have "1 < (3::int) \<and> 3 < ?n \<and> 3 dvd ?n" by simp
      then show ?thesis unfolding prime_number_def by blast
    qed
    with 3 first show ?thesis by simp
  next
    case 4
    let ?c = "\<forall>m :: nat. (5 + 6 * int m) * (5 + 6 * int m) \<le> ?n \<longrightarrow>
               \<not> (5 + 6 * int m) dvd ?n \<and> \<not> (5 + 6 * int m + 2) dvd ?n"
    have loop: "isPrime_loop num 5 = Some ?c"
      using isPrime_loop_below_overflow [OF 4(1) assms, of 0] by simp
    have two: "c_rem num 2 \<noteq> 0" "c_rem num 3 \<noteq> 0"
      using 4 c_rem_dvd [of num 2] c_rem_dvd [of num 3] by simp_all
    have run: "isPrime num = Some ?c"
      using 4(1) two loop by (simp add: isPrime_def word_sle_eq)
    have "?c \<longleftrightarrow> prime_number ?n"
    proof
      assume c: ?c
      have "\<forall>k\<ge>0. (5 + 6 * k) * (5 + 6 * k) \<le> ?n \<longrightarrow>
          \<not> (5 + 6 * k) dvd ?n \<and> \<not> (5 + 6 * k + 2) dvd ?n"
      proof (intro allI impI)
        fix k :: int assume "0 \<le> k" and sq: "(5 + 6 * k) * (5 + 6 * k) \<le> ?n"
        then obtain m where "k = int m" by (metis nonneg_int_cases)
        with c sq show "\<not> (5 + 6 * k) dvd ?n \<and> \<not> (5 + 6 * k + 2) dvd ?n" by blast
      qed
      with 4 show "prime_number ?n" by (intro candidates_suffice)
    next
      assume p: "prime_number ?n"
      show ?c
      proof (intro allI impI)
        fix m :: nat assume "(5 + 6 * int m) * (5 + 6 * int m) \<le> ?n"
        with p show "\<not> (5 + 6 * int m) dvd ?n \<and> \<not> (5 + 6 * int m + 2) dvd ?n"
          by (intro prime_number_candidates) simp_all
      qed
    qed
    with run show ?thesis by simp
  qed
qed

text \<open>
  Whatever the products do, an answer true is right: the loop has tried every candidate up
  to 46337 before the first product that does not fit, and a number below \<open>2\<^sup>3\<^sup>1\<close>
  without a divisor among them is prime.
\<close>

lemma isPrime_loop_true:
  assumes n: "2147117569 \<le> sint num"
  shows "k \<le> 7722 \<Longrightarrow> isPrime_loop num (word_of_int (5 + 6 * int k)) = Some True \<Longrightarrow>
     k \<le> m \<Longrightarrow> m \<le> 7722 \<Longrightarrow>
     \<not> (5 + 6 * int m) dvd sint num \<and> \<not> (5 + 6 * int m + 2) dvd sint num"
proof (induction "7722 - k" arbitrary: k)
  case 0
  then have k: "k = 7722" "m = 7722" by simp_all
  let ?i = "46337 :: int"
  have sq: "(word_of_int ?i * word_of_int ?i :: int32) \<le>s num"
    unfolding word_sle_eq using n by simp
  have pos_n: "0 < sint num" using n by simp
  have d1: "c_rem num (word_of_int ?i) = 0 \<longleftrightarrow> ?i dvd sint num"
    using c_rem_dvd [OF pos_n, of "word_of_int ?i"] by simp
  have d2: "c_rem num (word_of_int ?i + 2) = 0 \<longleftrightarrow> (?i + 2) dvd sint num"
    using c_rem_dvd [OF pos_n, of "word_of_int ?i + 2"] by simp
  from "0.prems"(2) have "isPrime_loop num (word_of_int ?i) = Some True" by (simp add: k)
  then have "\<not> (c_rem num (word_of_int ?i) = 0 \<or> c_rem num (word_of_int ?i + 2) = 0)"
    using sq by (subst (asm) isPrime_loop.simps) (simp split: if_splits)
  with d1 d2 show ?case by (simp add: k)
next
  case (Suc d)
  then have k: "k < 7722" by simp
  let ?i = "5 + 6 * int k"
  have i: "5 \<le> ?i" "?i \<le> 46331" using k by simp_all
  have isq: "?i * ?i \<le> 46331 * 46331" using i by (intro mult_mono) simp_all
  have si: "sint (word_of_int ?i :: int32) = ?i" using i by (intro sint_word_of_int) simp_all
  have si2: "sint (word_of_int ?i + 2 :: int32) = ?i + 2"
  proof -
    have "(word_of_int ?i + 2 :: int32) = word_of_int (?i + 2)" by simp
    then show ?thesis using i by (simp only: sint_word_of_int)
  qed
  have sq: "sint (word_of_int ?i * word_of_int ?i :: int32) = ?i * ?i"
  proof -
    have "(word_of_int ?i * word_of_int ?i :: int32) = word_of_int (?i * ?i)" by simp
    moreover have "- 2147483648 \<le> ?i * ?i" "?i * ?i < 2147483648"
      using zero_le_square [of ?i] isq by linarith+
    then have "sint (word_of_int (?i * ?i) :: int32) = ?i * ?i"
      by (rule sint_word_of_int)
    ultimately show ?thesis by simp
  qed
  have cond: "(word_of_int ?i * word_of_int ?i :: int32) \<le>s num"
    unfolding word_sle_eq sq using isq n by linarith
  have pos_n: "0 < sint num" using n by simp
  have pos_i: "0 < sint (word_of_int ?i :: int32)" "0 < sint (word_of_int ?i + 2 :: int32)"
    unfolding si si2 using i by simp_all
  have d1: "c_rem num (word_of_int ?i) = 0 \<longleftrightarrow> ?i dvd sint num"
    by (rule c_rem_dvd [OF pos_n pos_i(1), unfolded si])
  have d2: "c_rem num (word_of_int ?i + 2) = 0 \<longleftrightarrow> (?i + 2) dvd sint num"
    by (rule c_rem_dvd [OF pos_n pos_i(2), unfolded si2])
  have next_i: "(word_of_int ?i + 6 :: int32) = word_of_int (5 + 6 * int (Suc k))"
    by simp
  from Suc.prems(2) cond
  have here: "\<not> (c_rem num (word_of_int ?i) = 0 \<or> c_rem num (word_of_int ?i + 2) = 0)"
    and rest: "isPrime_loop num (word_of_int ?i + 6) = Some True"
    by (subst (asm) isPrime_loop.simps, simp split: if_splits)+
  show ?case
  proof (cases "m = k")
    case True
    with here d1 d2 show ?thesis by simp
  next
    case False
    with Suc.prems(3) have m: "Suc k \<le> m" by simp
    have d: "d = 7722 - Suc k" using Suc.hyps(2) by simp
    have sk: "Suc k \<le> 7722" using k by simp
    from rest have "isPrime_loop num (word_of_int (5 + 6 * int (Suc k))) = Some True"
      unfolding next_i .
    from Suc.hyps(1) [OF d sk this m Suc.prems(4)] show ?thesis .
  qed
qed

lemma isPrime_true_prime:
  assumes "isPrime num = Some True"
  shows "prime_number (sint num)"
proof (cases "sint num < 2147117569")
  case True
  from isPrime_below [OF True] assms show ?thesis by simp
next
  case False
  let ?n = "sint num"
  from False have n: "2147117569 \<le> ?n" by simp
  then have n3: "3 < ?n" by simp
  have top: "?n \<le> 2147483647" using sint_lt [of num] by simp
  have rem: "c_rem num 2 = 0 \<longleftrightarrow> 2 dvd ?n" "c_rem num 3 = 0 \<longleftrightarrow> 3 dvd ?n"
    using n3 c_rem_dvd [of num 2] c_rem_dvd [of num 3] by simp_all
  from assms n3 have two: "\<not> 2 dvd ?n" "\<not> 3 dvd ?n" and loop: "isPrime_loop num 5 = Some True"
    by (simp_all add: isPrime_def word_sle_eq rem split: if_splits)
  from loop have loop0: "isPrime_loop num (word_of_int (5 + 6 * int 0)) = Some True" by simp
  have "\<forall>k\<ge>0. (5 + 6 * k) * (5 + 6 * k) \<le> ?n \<longrightarrow>
      \<not> (5 + 6 * k) dvd ?n \<and> \<not> (5 + 6 * k + 2) dvd ?n"
  proof (intro allI impI)
    fix k :: int assume k0: "0 \<le> k" and sq: "(5 + 6 * k) * (5 + 6 * k) \<le> ?n"
    have "k \<le> 7722"
    proof (rule ccontr)
      assume "\<not> k \<le> 7722"
      then have "46343 \<le> 5 + 6 * k" by simp
      then have "46343 * 46343 \<le> (5 + 6 * k) * (5 + 6 * k)" by (intro mult_mono) simp_all
      with sq top show False by simp
    qed
    with k0 obtain m where m: "k = int m" "m \<le> 7722" by (metis nonneg_int_cases of_nat_le_iff of_nat_numeral)
    from isPrime_loop_true [OF n _ loop0 _ m(2)] m(1)
    show "\<not> (5 + 6 * k) dvd ?n \<and> \<not> (5 + 6 * k + 2) dvd ?n" by simp
  qed
  with n3 two show ?thesis by (intro candidates_suffice)
qed

text \<open>
  So a number that is not prime is never forbidden, and a prime below \<open>46337\<^sup>2\<close> always
  is.
\<close>

lemma forbidden_prime: "forbidden v \<Longrightarrow> prime_number (sint v)"
  unfolding forbidden_def by (rule isPrime_true_prime)

lemma prime_forbidden: "prime_number (sint v) \<Longrightarrow> sint v < 2147117569 \<Longrightarrow> forbidden v"
  by (simp add: forbidden_def isPrime_below)

subsection \<open>The largest \<^verbatim>\<open>int\<close>\<close>

text \<open>
  \<open>2147483647 = 2\<^sup>3\<^sup>1 - 1\<close> is a prime number: no candidate up to its square root divides
  it. The candidates are tried in runs of 500.
\<close>

lemma mersenne_chunk_0: "no_div 2147483647 5 3005"
  by code_simp

lemma mersenne_chunk_1: "no_div 2147483647 3005 6005"
  by code_simp

lemma mersenne_chunk_2: "no_div 2147483647 6005 9005"
  by code_simp

lemma mersenne_chunk_3: "no_div 2147483647 9005 12005"
  by code_simp

lemma mersenne_chunk_4: "no_div 2147483647 12005 15005"
  by code_simp

lemma mersenne_chunk_5: "no_div 2147483647 15005 18005"
  by code_simp

lemma mersenne_chunk_6: "no_div 2147483647 18005 21005"
  by code_simp

lemma mersenne_chunk_7: "no_div 2147483647 21005 24005"
  by code_simp

lemma mersenne_chunk_8: "no_div 2147483647 24005 27005"
  by code_simp

lemma mersenne_chunk_9: "no_div 2147483647 27005 30005"
  by code_simp

lemma mersenne_chunk_10: "no_div 2147483647 30005 33005"
  by code_simp

lemma mersenne_chunk_11: "no_div 2147483647 33005 36005"
  by code_simp

lemma mersenne_chunk_12: "no_div 2147483647 36005 39005"
  by code_simp

lemma mersenne_chunk_13: "no_div 2147483647 39005 42005"
  by code_simp

lemma mersenne_chunk_14: "no_div 2147483647 42005 45005"
  by code_simp

lemma mersenne_chunk_15: "no_div 2147483647 45005 48005"
  by code_simp

lemma mersenne_no_div: "no_div 2147483647 5 48005"
proof -
  have c1: "no_div 2147483647 5 6005"
    using no_div_append [of 2147483647 5 500 6005] mersenne_chunk_0 mersenne_chunk_1 by simp
  have c2: "no_div 2147483647 5 9005"
    using no_div_append [of 2147483647 5 1000 9005] c1 mersenne_chunk_2 by simp
  have c3: "no_div 2147483647 5 12005"
    using no_div_append [of 2147483647 5 1500 12005] c2 mersenne_chunk_3 by simp
  have c4: "no_div 2147483647 5 15005"
    using no_div_append [of 2147483647 5 2000 15005] c3 mersenne_chunk_4 by simp
  have c5: "no_div 2147483647 5 18005"
    using no_div_append [of 2147483647 5 2500 18005] c4 mersenne_chunk_5 by simp
  have c6: "no_div 2147483647 5 21005"
    using no_div_append [of 2147483647 5 3000 21005] c5 mersenne_chunk_6 by simp
  have c7: "no_div 2147483647 5 24005"
    using no_div_append [of 2147483647 5 3500 24005] c6 mersenne_chunk_7 by simp
  have c8: "no_div 2147483647 5 27005"
    using no_div_append [of 2147483647 5 4000 27005] c7 mersenne_chunk_8 by simp
  have c9: "no_div 2147483647 5 30005"
    using no_div_append [of 2147483647 5 4500 30005] c8 mersenne_chunk_9 by simp
  have c10: "no_div 2147483647 5 33005"
    using no_div_append [of 2147483647 5 5000 33005] c9 mersenne_chunk_10 by simp
  have c11: "no_div 2147483647 5 36005"
    using no_div_append [of 2147483647 5 5500 36005] c10 mersenne_chunk_11 by simp
  have c12: "no_div 2147483647 5 39005"
    using no_div_append [of 2147483647 5 6000 39005] c11 mersenne_chunk_12 by simp
  have c13: "no_div 2147483647 5 42005"
    using no_div_append [of 2147483647 5 6500 42005] c12 mersenne_chunk_13 by simp
  have c14: "no_div 2147483647 5 45005"
    using no_div_append [of 2147483647 5 7000 45005] c13 mersenne_chunk_14 by simp
  have c15: "no_div 2147483647 5 48005"
    using no_div_append [of 2147483647 5 7500 48005] c14 mersenne_chunk_15 by simp
  show ?thesis by (rule c15)
qed

lemma prime_2147483647: "prime_number 2147483647"
proof (rule candidates_suffice)
  show "\<forall>k\<ge>0. (5 + 6 * k) * (5 + 6 * k) \<le> 2147483647 \<longrightarrow>
      \<not> (5 + 6 * k) dvd (2147483647 :: int) \<and> \<not> (5 + 6 * k + 2) dvd (2147483647 :: int)"
  proof (intro allI impI)
    fix k :: int assume k: "0 \<le> k" and sq: "(5 + 6 * k) * (5 + 6 * k) \<le> 2147483647"
    have small: "5 + 6 * k < 48005"
    proof (rule ccontr)
      assume "\<not> 5 + 6 * k < 48005"
      then have "48005 \<le> 5 + 6 * k" by simp
      then have "48005 * 48005 \<le> (5 + 6 * k) * (5 + 6 * k)" by (intro mult_mono) simp_all
      with sq show False by simp
    qed
    from k obtain m where m: "k = int m" by (metis nonneg_int_cases)
    from no_div_candidates [OF mersenne_no_div, of m] small
    show "\<not> (5 + 6 * k) dvd (2147483647 :: int) \<and> \<not> (5 + 6 * k + 2) dvd (2147483647 :: int)"
      by (simp add: m dvd_eq_mod_eq_0)
  qed
qed simp_all

text \<open>
  For \<^verbatim>\<open>num = INT_MAX\<close> the test \<^verbatim>\<open>i * i <= num\<close> holds for every 32-bit product, so the loop
  runs until \<^verbatim>\<open>i + 2\<close> is \<^verbatim>\<open>num\<close> itself, at \<open>i = 2147483645\<close>, unless a remainder is 0
  before; either way it returns false.
\<close>

lemma sle_INT_MAX: "x \<le>s (2147483647 :: int32)"
  using sint_lt [of x] by (simp add: word_sle_eq)

lemma isPrime_loop_INT_MAX_descend:
  "isPrime_loop 2147483647 (2147483645 - 6 * of_nat n) = Some False"
proof (induction n)
  case 0
  show ?case
    by (subst isPrime_loop.simps) (simp add: sle_INT_MAX c_rem_def signed_modulo_int_def)
next
  case (Suc n)
  have step: "2147483645 - 6 * of_nat (Suc n) + 6 = (2147483645 - 6 * of_nat n :: int32)"
    by simp
  show ?case
    by (subst isPrime_loop.simps) (simp only: step Suc sle_INT_MAX, simp)
qed

lemma isPrime_INT_MAX: "isPrime 2147483647 = Some False"
proof -
  have e: "(2147483645 - 6 * of_nat 357913940 :: int32) = 5" by simp
  have "isPrime_loop 2147483647 5 = Some False"
    using isPrime_loop_INT_MAX_descend [of 357913940] unfolding e .
  then show ?thesis
    by (simp add: isPrime_def word_sle_eq c_rem_def signed_modulo_int_def)
qed

section \<open>The worked example of the specification\<close>

text \<open>
  Claim C2. For the pyramid with the rows \<open>4\<close>, \<open>1 6\<close> and \<open>2 8 3\<close> the program builds
  the graph and prints the maximum sum 18, the sum of 4, 6 and 8 (2 and 3 are prime and
  cannot be entered).
\<close>

theorem example_pyramid_maximum_sum:
  "main_file [[4], [1, 6], [2, 8, 3]] = Some (Maximum_Sum 18)"
  by code_simp

section \<open>The topological order\<close>

text \<open>
  Claim C9. For the graph built from a well-formed pyramid (the builder returns one for
  fewer than 65535 levels, where no counter leaves the range of \<^verbatim>\<open>int\<close>), the first loop
  of \<^verbatim>\<open>maximumSum\<close> returns, and the stack it leaves, read from the top to the bottom,
  holds every vertex below \<^verbatim>\<open>vertexAmount\<close> exactly once and holds the source of every
  edge strictly before its destination.
\<close>

theorem topological_order:
  assumes "pyramid rows" "length rows < 65535"
  shows "\<exists>g g'. readInput_file rows = Some g \<and>
      sortVertices (vertexAmount g) 0 (g\<lparr>visited := replicate (vertexAmount g) False\<rparr>) = Some g' \<and>
      distinct (s g') \<and> set (s g') = {0..<vertexAmount g} \<and>
      (\<forall>u<vertexAmount g. \<forall>e\<in>set (edgeList g ! u).
         \<exists>i j. i < j \<and> j < length (s g') \<and> s g' ! i = u \<and> s g' ! j = vertexNum e)"
proof -
  let ?g = "pyramidGraph rows"
  from sortVertices_forward [OF pyramidGraph_forward [OF assms(1)] pyramidGraph_fields(3)]
  obtain g' where g': "sortVertices (vertexAmount ?g) 0
        (?g\<lparr>visited := replicate (vertexAmount ?g) False\<rparr>) = Some g'"
    "distinct (s g')" "set (s g') = {0..<vertexAmount ?g}"
    "\<forall>u<vertexAmount ?g. \<forall>e\<in>set (edgeList ?g ! u). precedes u (vertexNum e) (s g')"
    by blast
  from g'(4) have "\<forall>u<vertexAmount ?g. \<forall>e\<in>set (edgeList ?g ! u).
         \<exists>i j. i < j \<and> j < length (s g') \<and> s g' ! i = u \<and> s g' ! j = vertexNum e"
    by (blast dest: precedes_nth)
  with g'(1,2,3) readInput_file_pyramid [OF assms] show ?thesis by blast
qed

theorem topological_order_witness:
  "pyramid [[4], [1, 6], [2, 8, 3]] \<and> length [[4], [1, 6], [2, 8, 3 :: int32]] < 65535 \<and>
   (\<exists>g g'. readInput_file [[4], [1, 6], [2, 8, 3]] = Some g \<and>
      sortVertices (vertexAmount g) 0 (g\<lparr>visited := replicate (vertexAmount g) False\<rparr>) = Some g' \<and>
      distinct (s g') \<and> set (s g') = {0..<vertexAmount g} \<and>
      (\<forall>u<vertexAmount g. \<forall>e\<in>set (edgeList g ! u).
         \<exists>i j. i < j \<and> j < length (s g') \<and> s g' ! i = u \<and> s g' ! j = vertexNum e))"
proof -
  have h: "pyramid [[4], [1, 6], [2, 8, 3]]" by (simp add: pyramid_def)
  have n: "length [[4], [1, 6], [2, 8, 3 :: int32]] < 65535" by simp
  from h n topological_order [OF h n] show ?thesis by (intro conjI)
qed

section \<open>The printed result\<close>

text \<open>
  Claim C3. For the graph built from a well-formed pyramid (the builder returns one for
  fewer than 65535 levels), \<^verbatim>\<open>maximumSum\<close> always prints \<^verbatim>\<open>Maximum Sum: x\<close> for some \<open>x\<close>
  and never \<^verbatim>\<open>Maximum sum does not exist.\<close>: the scan reaches vertex 0, whose sum is 0,
  at the latest. When the start node has no edge, the printed value is 0.
\<close>

theorem always_prints_maximum_sum:
  assumes "pyramid rows" "length rows < 65535"
  shows "\<exists>g x. readInput_file rows = Some g \<and> maximumSum g = Some (Maximum_Sum x) \<and>
     main_file rows = Some (Maximum_Sum x) \<and> (edgeList g ! 0 = [] \<longrightarrow> x = 0)"
  using maximumSum_pyramidGraph [OF assms(1)] readInput_file_pyramid [OF assms]
  by (auto simp: main_file_def)

theorem always_prints_maximum_sum_witness:
  "pyramid [[4], [1, 6], [2, 8, 3]] \<and> length [[4], [1, 6], [2, 8, 3 :: int32]] < 65535 \<and>
   (\<exists>g x. readInput_file [[4], [1, 6], [2, 8, 3]] = Some g \<and>
      maximumSum g = Some (Maximum_Sum x) \<and>
      main_file [[4], [1, 6], [2, 8, 3]] = Some (Maximum_Sum x) \<and>
      (edgeList g ! 0 = [] \<longrightarrow> x = 0))"
proof -
  have h: "pyramid [[4], [1, 6], [2, 8, 3]]" by (simp add: pyramid_def)
  have n: "length [[4], [1, 6], [2, 8, 3 :: int32]] < 65535" by simp
  from h n always_prints_maximum_sum [OF h n] show ?thesis by (intro conjI)
qed

text \<open>
  Claim C1 (what the program does at an input the claim covers). For a pyramid whose
  first number is the prime 2, the program does not report that no path exists: it
  prints \<^verbatim>\<open>Maximum Sum: 0\<close>.
\<close>

theorem prime_apex_prints_zero:
  "main_file [[2], [1, 6], [2, 8, 3]] = Some (Maximum_Sum 0)"
  by code_simp

section \<open>A prime first number\<close>

lemma prime_2: "prime_number 2"
  by (auto simp: prime_number_def)

lemma composite: "1 < a \<Longrightarrow> 1 < b \<Longrightarrow> \<not> prime_number (a * b)"
proof
  assume a: "1 < a" "1 < b" and p: "prime_number (a * b)"
  have "a * 1 < a * b" using a by (intro mult_strict_left_mono) simp_all
  then have "1 < a \<and> a < a * b" using a by simp
  with p have "\<not> a dvd a * b" unfolding prime_number_def by blast
  then show False by simp
qed

lemma not_prime_4_6_8: "\<not> prime_number 4" "\<not> prime_number 6" "\<not> prime_number 8"
  using composite [of 2 2] composite [of 2 3] composite [of 2 4] by simp_all




section \<open>A single level\<close>

text \<open>
  With one level the builder adds the edge from the start node only; the stop node gets
  no edge, and the scan of \<^verbatim>\<open>maximumSum\<close> falls back to vertex 1.
\<close>

lemma single_graph:
  assumes "isPrime v = Some False"
  shows "readInput_file [[v]] =
     Some \<lparr>vertexAmount = 3, edgeList = [[\<lparr>vertexNum = 1, edgeWeight = - v\<rparr>], [], []],
            visited = [], s = []\<rparr>"
proof -
  have "pyramid [[v]]" by (simp add: pyramid_def)
  moreover have "\<not> forbidden v" using assms by (simp add: forbidden_def)
  ultimately show ?thesis
    by (simp add: readInput_file_pyramid pyramidGraph_def pyramidCalls_def new_DAG_def
        applyCalls_def callEdge_def numeral_3_eq_3)
qed

lemma slt_INT_MAX: "x <s INT_MAX \<longleftrightarrow> x \<noteq> INT_MAX"
proof -
  have "sint x \<le> 2147483647" using sint_lt [of x] by simp
  moreover have "sint x = 2147483647 \<longleftrightarrow> x = INT_MAX"
    using word_eq_iff_signed [where ?'a = int, of x INT_MAX] by (simp add: INT_MAX_def)
  ultimately show ?thesis by (auto simp: word_sless_alt INT_MAX_def)
qed

lemma INT_MAX_nonzero: "INT_MAX \<noteq> 0" "0 \<noteq> INT_MAX"
  by (simp_all add: INT_MAX_def)

lemma single_sum:
  assumes "v \<noteq> - 2147483647"
  shows "maximumSum \<lparr>vertexAmount = 3, edgeList = [[\<lparr>vertexNum = 1, edgeWeight = - v\<rparr>], [], []],
            visited = [], s = []\<rparr> = Some (Maximum_Sum v)"
proof -
  have "- v \<noteq> INT_MAX"
  proof
    assume "- v = INT_MAX"
    then have "v = - INT_MAX" by (metis minus_minus)
    with assms show False by (simp add: INT_MAX_def)
  qed
  then show ?thesis
    by (simp add: maximumSum_def sortVertices.simps initSum_def numeral_3_eq_3 slt_INT_MAX
        INT_MAX_nonzero)
qed

text \<open>
  For a single level whose number \<open>v\<close> is not prime and is not \<open>-2147483647\<close>, the program
  prints \<open>v\<close> as the maximum sum.
\<close>

theorem single_row_maximum_sum:
  "\<not> prime_number (sint v) \<Longrightarrow> v \<noteq> - 2147483647 \<Longrightarrow> main_file [[v]] = Some (Maximum_Sum v)"
proof -
  assume v: "\<not> prime_number (sint v)" "v \<noteq> - 2147483647"
  from v(1) forbidden_prime [of v] have "\<not> forbidden v" by blast
  then have "isPrime v = Some False" by (simp add: isPrime_forbidden)
  with single_sum [OF v(2)] show ?thesis by (simp add: main_file_def single_graph)
qed

theorem single_row_maximum_sum_witness:
  "\<not> prime_number (sint (4 :: int32)) \<and> (4 :: int32) \<noteq> - 2147483647 \<and>
   main_file [[4]] = Some (Maximum_Sum 4)"
proof -
  have h: "\<not> prime_number (sint (4 :: int32))" by (simp add: not_prime_4_6_8)
  have n: "(4 :: int32) \<noteq> - 2147483647" by simp
  from h n single_row_maximum_sum [OF h n] show ?thesis by (intro conjI)
qed

text \<open>
  Claim C5 (what the program does at an input the claim covers). The number
  \<open>-2147483647\<close> is not prime, and \<^verbatim>\<open>isPrime\<close> says so. For the single level that holds it,
  the weight of the edge is \<^verbatim>\<open>INT_MAX\<close>, the value that marks a vertex as not reached,
  and the program prints 0 instead of \<open>-2147483647\<close>.
\<close>

theorem single_row_sentinel:
  "isPrime (- 2147483647) = Some False \<and> main_file [[- 2147483647]] = Some (Maximum_Sum 0)"
  by code_simp

section \<open>The edges into and out of a cell\<close>





section \<open>Cells that cannot be entered\<close>

text \<open>
  In the graph built from a well-formed pyramid of fewer than 65535 levels, the vertex of
  a cell for whose value \<^verbatim>\<open>isPrime\<close> returns true has no incoming edge; after every number
  of pops of the relaxation loop its sum is still \<^verbatim>\<open>INT_MAX\<close>, and the loop gives the
  sums that it gives when the outgoing edges of the cell are taken away: the guard
  \<^verbatim>\<open>sum[source] != INT_MAX\<close> never lets the cell relax its successors.
\<close>

lemma forbidden_cells_unreachable:
  assumes "pyramid rows" "length rows < 65535" "1 \<le> i" "i \<le> length rows" "j < i"
    "forbidden (rows ! (i - 1) ! j)"
  shows "\<exists>g g'. readInput_file rows = Some g \<and> incoming g (cell i j) = [] \<and>
      sortVertices (vertexAmount g) 0 (g\<lparr>visited := replicate (vertexAmount g) False\<rparr>) = Some g' \<and>
      (\<forall>n. \<exists>sumv. relaxStack (edgeList g') (take n (s g'))
                     ((replicate (vertexAmount g) INT_MAX)[0 := 0]) = Some sumv \<and>
                   sumv ! cell i j = INT_MAX) \<and>
      relaxStack ((edgeList g')[cell i j := []]) (s g')
          ((replicate (vertexAmount g) INT_MAX)[0 := 0]) =
        relaxStack (edgeList g') (s g') ((replicate (vertexAmount g) INT_MAX)[0 := 0])"
proof -
  let ?g = "pyramidGraph rows"
  let ?V = "vertexAmount ?g"
  let ?k = "cell i j"
  let ?init = "(replicate ?V INT_MAX)[0 := 0]"
  note none = forbidden_cell_no_calls [OF assms(1,3,4,5,6)]
  have inc: "incoming ?g ?k = []"
    unfolding incoming_pyramidGraph none by (simp add: concat_none)
  have k: "0 < ?k" "?k < ?V"
    using cell_bounds [OF assms(3,4,5)] by (simp_all add: pyramidGraph_fields)
  have fw: "forward (edgeList ?g) ?V" by (rule pyramidGraph_forward [OF assms(1)])
  then have el: "length (edgeList ?g) = ?V" "\<forall>u<?V. \<forall>e\<in>set (edgeList ?g ! u). vertexNum e < ?V"
    by (simp_all add: forward_def)
  have no_edge: "\<forall>u<?V. \<forall>e\<in>set (edgeList ?g ! u). vertexNum e \<noteq> ?k"
  proof (intro allI impI ballI)
    fix u e assume u: "u < ?V" and e: "e \<in> set (edgeList ?g ! u)"
    from u have "u < triangle (length rows) + 2" by (simp add: pyramidGraph_fields)
    with e obtain c where c: "c \<in> set (pyramidCalls rows)" "e = callEdge c"
      by (auto simp: pyramidGraph_edges)
    show "vertexNum e \<noteq> ?k"
    proof
      assume "vertexNum e = ?k"
      with c have "c \<in> set (filter (\<lambda>c. fst (snd c) = ?k) (pyramidCalls rows))"
        by (simp add: callEdge_def)
      with none show False by simp
    qed
  qed
  from sortVertices_forward [OF fw pyramidGraph_fields(3)]
  obtain g' where g': "sortVertices ?V 0 (?g\<lparr>visited := replicate ?V False\<rparr>) = Some g'"
    "edgeList g' = edgeList ?g" "set (s g') = {0..<?V}"
    by blast
  have pops: "\<exists>sumv. relaxStack (edgeList g') (take n (s g')) ?init = Some sumv \<and>
      sumv ! ?k = INT_MAX" for n
  proof -
    have st: "\<forall>u\<in>set (take n (s g')). u < ?V"
      using g'(3) by (auto dest: in_set_takeD)
    from relaxStack_frame [OF el _ st, of ?init] obtain sumv where
      r: "relaxStack (edgeList ?g) (take n (s g')) ?init = Some sumv"
        "\<forall>k. (\<forall>u<?V. \<forall>e\<in>set (edgeList ?g ! u). vertexNum e \<noteq> k) \<longrightarrow> sumv ! k = ?init ! k"
      by auto
    from r(2) no_edge have "sumv ! ?k = ?init ! ?k" by blast
    also have "\<dots> = INT_MAX" using k by simp
    finally show ?thesis using r(1) g'(2) by simp
  qed
  have both: "\<forall>u<?V. \<forall>e\<in>set (edgeList ?g ! u). vertexNum e < ?V \<and> vertexNum e \<noteq> ?k"
    using el(2) no_edge by blast
  have st: "\<forall>u\<in>set (s g'). u < ?V" using g'(3) by simp
  have init: "length ?init = ?V" "?init ! ?k = INT_MAX" using k by simp_all
  have "relaxStack ((edgeList ?g)[?k := []]) (s g') ?init = relaxStack (edgeList ?g) (s g') ?init"
    by (rule relaxStack_skips [OF el(1) both k(2) init(1) st init(2)])
  then have skip: "relaxStack ((edgeList g')[?k := []]) (s g') ?init =
      relaxStack (edgeList g') (s g') ?init"
    by (simp only: g'(2))
  from readInput_file_pyramid [OF assms(1,2)] inc g'(1) pops skip show ?thesis by blast
qed

text \<open>So it is for every cell whose value is a prime number below \<open>2147117569\<close>.\<close>

theorem small_prime_cells_unreachable:
  assumes "pyramid rows" "length rows < 65535" "1 \<le> i" "i \<le> length rows" "j < i"
    "prime_number (sint (rows ! (i - 1) ! j))" "sint (rows ! (i - 1) ! j) < 2147117569"
  shows "\<exists>g g'. readInput_file rows = Some g \<and> incoming g (cell i j) = [] \<and>
      sortVertices (vertexAmount g) 0 (g\<lparr>visited := replicate (vertexAmount g) False\<rparr>) = Some g' \<and>
      (\<forall>n. \<exists>sumv. relaxStack (edgeList g') (take n (s g'))
                     ((replicate (vertexAmount g) INT_MAX)[0 := 0]) = Some sumv \<and>
                   sumv ! cell i j = INT_MAX) \<and>
      relaxStack ((edgeList g')[cell i j := []]) (s g')
          ((replicate (vertexAmount g) INT_MAX)[0 := 0]) =
        relaxStack (edgeList g') (s g') ((replicate (vertexAmount g) INT_MAX)[0 := 0])"
  by (rule forbidden_cells_unreachable [OF assms(1-5) prime_forbidden [OF assms(6,7)]])

theorem small_prime_cells_unreachable_witness:
  "\<exists>g g'. readInput_file [[4], [1, 6], [2, 8, 3]] = Some g \<and> incoming g (cell 3 0) = [] \<and>
      sortVertices (vertexAmount g) 0 (g\<lparr>visited := replicate (vertexAmount g) False\<rparr>) = Some g' \<and>
      (\<forall>n. \<exists>sumv. relaxStack (edgeList g') (take n (s g'))
                     ((replicate (vertexAmount g) INT_MAX)[0 := 0]) = Some sumv \<and>
                   sumv ! cell 3 0 = INT_MAX) \<and>
      relaxStack ((edgeList g')[cell 3 0 := []]) (s g')
          ((replicate (vertexAmount g) INT_MAX)[0 := 0]) =
        relaxStack (edgeList g') (s g') ((replicate (vertexAmount g) INT_MAX)[0 := 0])"
proof -
  have h: "pyramid [[4], [1, 6], [2, 8, 3]]" "length [[4], [1, 6], [2, 8, 3 :: int32]] < 65535"
    "(1::nat) \<le> 3" "3 \<le> length [[4], [1, 6], [2, 8, 3 :: int32]]" "(0::nat) < 3"
    "prime_number (sint ([[4 :: int32], [1, 6], [2, 8, 3]] ! (3 - 1) ! 0))"
    "sint ([[4 :: int32], [1, 6], [2, 8, 3]] ! (3 - 1) ! 0) < 2147117569"
    by (simp_all add: pyramid_def prime_2)
  from small_prime_cells_unreachable [OF h] show ?thesis .
qed

text \<open>A prime number that \<^verbatim>\<open>isPrime\<close> does not recognise is entered like any other number.\<close>

lemma unforbidden_0_4: "\<not> forbidden 0" "\<not> forbidden 4" "\<not> forbidden 2147483647"
  using isPrime_INT_MAX
  by (simp_all add: forbidden_def isPrime_def word_sle_eq c_rem_def signed_modulo_int_def)

lemma big_prime_graph:
  "readInput_file [[0], [2147483647, 4]] =
     Some \<lparr>vertexAmount = 5,
            edgeList = [[\<lparr>vertexNum = 1, edgeWeight = 0\<rparr>],
                        [\<lparr>vertexNum = 2, edgeWeight = - 2147483647\<rparr>,
                         \<lparr>vertexNum = 3, edgeWeight = - 4\<rparr>],
                        [\<lparr>vertexNum = 4, edgeWeight = 0\<rparr>],
                        [\<lparr>vertexNum = 4, edgeWeight = 0\<rparr>],
                        []],
            visited = [], s = []\<rparr>"
proof -
  let ?rows = "[[0], [2147483647, 4 :: int32]]"
  have py: "pyramid ?rows" "length ?rows < 65535" by (simp_all add: pyramid_def)
  have calls: "pyramidCalls ?rows =
      [(0, 1, 0), (1, 2, 2147483647), (2, 4, 0), (1, 3, 4), (3, 4, 0)]"
    by (simp add: pyramidCalls_def cellCalls_def parentCalls_def unforbidden_0_4)
  have V: "triangle (length ?rows) + 2 = 5" by simp
  have build: "(new_DAG 5)\<lparr>edgeList :=
      applyCalls [(0, 1, 0), (1, 2, 2147483647), (2, 4, 0), (1, 3, 4), (3, 4, 0)]
        (replicate 5 [])\<rparr> =
     \<lparr>vertexAmount = 5,
            edgeList = [[\<lparr>vertexNum = 1, edgeWeight = 0\<rparr>],
                        [\<lparr>vertexNum = 2, edgeWeight = - 2147483647\<rparr>,
                         \<lparr>vertexNum = 3, edgeWeight = - 4\<rparr>],
                        [\<lparr>vertexNum = 4, edgeWeight = 0\<rparr>],
                        [\<lparr>vertexNum = 4, edgeWeight = 0\<rparr>],
                        []],
            visited = [], s = []\<rparr>"
    by code_simp
  have "pyramidGraph ?rows = (new_DAG 5)\<lparr>edgeList :=
      applyCalls [(0, 1, 0), (1, 2, 2147483647), (2, 4, 0), (1, 3, 4), (3, 4, 0)]
        (replicate 5 [])\<rparr>"
    unfolding pyramidGraph_def calls V ..
  with readInput_file_pyramid [OF py] build show ?thesis by simp
qed

text \<open>
  Claim C8 (what the program does at an input the claim covers). The number 2147483647
  is prime, but \<^verbatim>\<open>isPrime\<close> returns false for it. In the pyramid with the rows \<open>0\<close> and
  \<open>2147483647 4\<close> its cell (vertex 2) gets the edge from its parent (vertex 1), its sum
  does not stay \<^verbatim>\<open>INT_MAX\<close>, and the program prints the sum of the path through it.
\<close>

theorem prime_cell_is_entered:
  "prime_number (sint (2147483647 :: int32)) \<and>
   (\<exists>g. readInput_file [[0], [2147483647, 4]] = Some g \<and>
      incoming g (cell 2 0) = [(cell 1 0, - 2147483647)]) \<and>
   main_file [[0], [2147483647, 4]] = Some (Maximum_Sum 2147483647)"
proof -
  let ?g = "\<lparr>vertexAmount = 5,
            edgeList = [[\<lparr>vertexNum = 1, edgeWeight = 0\<rparr>],
                        [\<lparr>vertexNum = 2, edgeWeight = - 2147483647\<rparr>,
                         \<lparr>vertexNum = 3, edgeWeight = - 4\<rparr>],
                        [\<lparr>vertexNum = 4, edgeWeight = 0\<rparr>],
                        [\<lparr>vertexNum = 4, edgeWeight = 0\<rparr>],
                        []],
            visited = [], s = []\<rparr>"
  have p: "prime_number (sint (2147483647 :: int32))" using prime_2147483647 by simp
  have inc: "incoming ?g (cell 2 0) = [(cell 1 0, - 2147483647)]" by code_simp
  have run: "maximumSum ?g = Some (Maximum_Sum 2147483647)" by code_simp
  from big_prime_graph run have "main_file [[0], [2147483647, 4]] = Some (Maximum_Sum 2147483647)"
    by (simp add: main_file_def)
  with p big_prime_graph inc show ?thesis by blast
qed

theorem prime_cell_is_entered_witness:
  "1 < (46339 :: int) \<and> 46339 < sint (2147483647 :: int32) \<and>
   \<not> (46339 :: int) dvd sint (2147483647 :: int32) \<and>
   main_file [[0], [2147483647, 4]] = Some (Maximum_Sum 2147483647)"
proof -
  have b: "1 < (46339 :: int) \<and> 46339 < sint (2147483647 :: int32)" by simp
  from prime_cell_is_entered have p: "prime_number (sint (2147483647 :: int32))"
    and r: "main_file [[0], [2147483647, 4]] = Some (Maximum_Sum 2147483647)"
    by (rule conjunct1, simp)
  from p have "\<forall>d. 1 < d \<and> d < sint (2147483647 :: int32) \<longrightarrow> \<not> d dvd sint (2147483647 :: int32)"
    unfolding prime_number_def by (rule conjunct2)
  then have "\<not> (46339 :: int) dvd sint (2147483647 :: int32)" using b by blast
  with r b show ?thesis by blast
qed

section \<open>The edges to the stop node\<close>





section \<open>The primality test at the largest \<^verbatim>\<open>int\<close>\<close>

text \<open>
  Claim C10 (what the program does at an input the claim covers). \<^verbatim>\<open>isPrime(2147483647)\<close>
  returns false, although 2147483647 is a prime number: from \<open>i = 46343\<close> on the product
  \<^verbatim>\<open>i * i\<close> exceeds the range of \<^verbatim>\<open>int\<close>.
\<close>

theorem isPrime_at_INT_MAX:
  "isPrime 2147483647 = Some False \<and> prime_number (sint (2147483647 :: int32))"
  using isPrime_INT_MAX prime_2147483647 by simp

theorem isPrime_at_INT_MAX_witness:
  "isPrime 2147483647 = Some False \<and>
   1 < (46337 :: int) \<and> 46337 < sint (2147483647 :: int32) \<and>
   \<not> (46337 :: int) dvd sint (2147483647 :: int32)"
proof -
  have b: "1 < (46337 :: int) \<and> 46337 < sint (2147483647 :: int32)" by simp
  from isPrime_at_INT_MAX have r: "isPrime 2147483647 = Some False"
    and p: "prime_number (sint (2147483647 :: int32))" by (rule conjunct1, rule conjunct2)
  from p have "\<forall>d. 1 < d \<and> d < sint (2147483647 :: int32) \<longrightarrow> \<not> d dvd sint (2147483647 :: int32)"
    unfolding prime_number_def by (rule conjunct2)
  then have "\<not> (46337 :: int) dvd sint (2147483647 :: int32)" using b by blast
  with r b show ?thesis by blast
qed

section \<open>Further properties\<close>

text \<open>
  Below \<open>46337\<^sup>2 = 2147117569\<close> \<^verbatim>\<open>isPrime\<close> returns true exactly for the prime numbers.
\<close>

theorem isPrime_below_overflow:
  assumes "sint num < 2147117569"
  shows "isPrime num = Some (prime_number (sint num))"
  using assms by (rule isPrime_below)

theorem isPrime_below_overflow_witness:
  "sint (29 :: int32) < 2147117569 \<and> isPrime 29 = Some (prime_number (sint (29 :: int32)))"
proof -
  have h: "sint (29 :: int32) < 2147117569" by simp
  from h isPrime_below_overflow [OF h] show ?thesis by (rule conjI)
qed

text \<open>
  \<^verbatim>\<open>isPrime\<close> returns for every 32-bit number: under wrap-around the loop variable
  reaches 1 at the latest.
\<close>

theorem isPrime_total: "\<exists>b. isPrime num = Some b"
  by (rule isPrime_returns)

text \<open>
  For a well-formed pyramid of \<open>N < 65535\<close> levels the builder returns a graph with
  \<open>N (N + 1) / 2 + 2\<close> vertices, one edge list for each.
\<close>

theorem vertex_count:
  assumes "pyramid rows" "length rows < 65535"
  shows "\<exists>g. readInput_file rows = Some g \<and>
     vertexAmount g = length rows * (length rows + 1) div 2 + 2 \<and>
     length (edgeList g) = vertexAmount g"
  using readInput_file_pyramid [OF assms]
  by (simp add: pyramidGraph_fields triangle_formula)

theorem vertex_count_witness:
  "pyramid [[4], [1, 6], [2, 8, 3]] \<and> length [[4], [1, 6], [2, 8, 3 :: int32]] < 65535 \<and>
   (\<exists>g. readInput_file [[4], [1, 6], [2, 8, 3]] = Some g \<and>
     vertexAmount g = length [[4], [1, 6], [2, 8, 3 :: int32]] *
       (length [[4], [1, 6], [2, 8, 3 :: int32]] + 1) div 2 + 2 \<and>
     length (edgeList g) = vertexAmount g)"
proof -
  have h: "pyramid [[4], [1, 6], [2, 8, 3]]" by (simp add: pyramid_def)
  have n: "length [[4], [1, 6], [2, 8, 3 :: int32]] < 65535" by simp
  from h n vertex_count [OF h n] show ?thesis by (intro conjI)
qed

text \<open>
  From 65536 levels on the sum of the level counts leaves the range of \<^verbatim>\<open>int\<close>, and
  neither overload of \<^verbatim>\<open>readInput\<close> has a defined result.
\<close>

theorem readInput_too_many_levels:
  assumes "65536 \<le> N"
  shows "readInput N input = None"
proof -
  have run: "i \<le> 65536 \<Longrightarrow> 0 < i \<Longrightarrow> NSum = triangle (i - 1) \<Longrightarrow> sumLevels N i NSum = None"
    for i NSum
  proof (induction "65536 - i" arbitrary: i NSum)
    case 0
    then have i: "i = 65536" by simp
    have "triangle 65535 = 2147450880" by (simp add: triangle_formula)
    with 0 i have "int_add NSum i = None" by (simp add: int_add_def)
    with assms i show ?case by (subst sumLevels.simps) simp
  next
    case (Suc d)
    then have i: "i < 65536" by simp
    have tri: "triangle i = triangle (i - 1) + i" using Suc.prems(2) by (cases i) simp_all
    have "triangle i \<le> triangle 65535" using i by (intro triangle_mono) simp
    also have "\<dots> = 2147450880" by (simp add: triangle_formula)
    finally have a: "int_add NSum i = Some (triangle i)"
      using tri Suc.prems(3) by (simp add: int_add_def)
    have b: "int_add i 1 = Some (Suc i)" using i by (simp add: int_add_def)
    have "sumLevels N (Suc i) (triangle i) = None"
      using Suc.hyps(2) i by (intro Suc.hyps(1)) simp_all
    with a b assms i show ?case by (subst sumLevels.simps) simp
  qed
  have "sumLevels N 1 0 = None" by (rule run) simp_all
  then show ?thesis by (simp add: readInput_def)
qed

theorem readInput_too_many_levels_witness:
  "(65536 :: nat) \<le> 65536 \<and> readInput 65536 [2] = None"
proof -
  have h: "(65536 :: nat) \<le> 65536" by simp
  from h readInput_too_many_levels [OF h] show ?thesis by (rule conjI)
qed

end
